theory Spec2Isabelle
  imports Complex_Main "HOL-Library.Char_ord" "HOL-Library.List_Lexorder"
begin

section \<open>Python values and the outside world\<close>

text \<open>
  The exporter is a Python script. Strings are modelled as \<open>string\<close>; the character
  classes below are the ASCII part of Python's (characters from 128 on are neither
  whitespace nor digits and have no case). A byte string is a list of characters too.
\<close>

datatype error = KeyError | TypeError | ValueError | AttributeError | RequestException

datatype json = JNull | JBool bool | JInt int | JStr string | JList "json list"
  | JObj "(string \<times> json) list"

definition py_isspace :: "char \<Rightarrow> bool" where
  "py_isspace c = (of_char c \<in> {9, 10, 11, 12, 13, 28, 29, 30, 31, 32 :: nat})"

definition strip :: "string \<Rightarrow> string" where
  "strip s = rev (dropWhile py_isspace (rev (dropWhile py_isspace s)))"

definition ebind :: "error + 'a \<Rightarrow> ('a \<Rightarrow> error + 'b) \<Rightarrow> error + 'b" where
  "ebind m f = (case m of Inl err \<Rightarrow> Inl err | Inr x \<Rightarrow> f x)"

fun truthy :: "json \<Rightarrow> bool" where
  "truthy JNull = False"
| "truthy (JBool b) = b"
| "truthy (JInt n) = (n \<noteq> 0)"
| "truthy (JStr s) = (s \<noteq> [])"
| "truthy (JList xs) = (xs \<noteq> [])"
| "truthy (JObj kvs) = (kvs \<noteq> [])"

definition py_or :: "json \<Rightarrow> json \<Rightarrow> json" where
  "py_or a b = (if truthy a then a else b)"

fun py_get :: "json \<Rightarrow> string \<Rightarrow> json \<Rightarrow> error + json" where
  "py_get (JObj kvs) k d = Inr (case map_of kvs k of None \<Rightarrow> d | Some v \<Rightarrow> v)"
| "py_get _ k d = Inl AttributeError"

fun py_item :: "json \<Rightarrow> string \<Rightarrow> error + json" where
  "py_item (JObj kvs) k = (case map_of kvs k of None \<Rightarrow> Inl KeyError | Some v \<Rightarrow> Inr v)"
| "py_item _ k = Inl TypeError"

fun py_iter :: "json \<Rightarrow> error + json list" where
  "py_iter (JList xs) = Inr xs"
| "py_iter (JObj kvs) = Inr (map (\<lambda>kv. JStr (fst kv)) kvs)"
| "py_iter (JStr s) = Inr (map (\<lambda>c. JStr [c]) s)"
| "py_iter _ = Inl TypeError"

definition is_digit :: "char \<Rightarrow> bool" where
  "is_digit c = (48 \<le> (of_char c :: nat) \<and> (of_char c :: nat) \<le> 57)"

definition digit_val :: "char \<Rightarrow> int" where
  "digit_val c = int (of_char c) - 48"

definition digits_to_int :: "string \<Rightarrow> int" where
  "digits_to_int ds = foldl (\<lambda>acc c. acc * 10 + digit_val c) 0 ds"

fun int_body :: "string \<Rightarrow> bool" where
  "int_body [] = False"
| "int_body [c] = is_digit c"
| "int_body (c # d # cs) =
     (if is_digit c then
        (if d = CHR ''_'' then int_body cs else int_body (d # cs))
      else False)"

definition int_of_str :: "string \<Rightarrow> int option" where
  "int_of_str s =
     (let t = strip s;
          neg = (t \<noteq> [] \<and> hd t = CHR ''-'');
          body = (if t \<noteq> [] \<and> hd t \<in> {CHR ''+'', CHR ''-''} then tl t else t)
      in if int_body body
         then Some ((if neg then -1 else 1) * digits_to_int (filter (\<lambda>c. c \<noteq> CHR ''_'') body))
         else None)"

fun py_int :: "json \<Rightarrow> error + int" where
  "py_int (JInt n) = Inr n"
| "py_int (JBool b) = Inr (if b then 1 else 0)"
| "py_int (JStr s) = (case int_of_str s of None \<Rightarrow> Inl ValueError | Some n \<Rightarrow> Inr n)"
| "py_int _ = Inl TypeError"

function nat_digits :: "nat \<Rightarrow> string" where
  "nat_digits n = (if n < 10 then [char_of (48 + n)] else nat_digits (n div 10) @ [char_of (48 + n mod 10)])"
  by pat_completeness auto
termination by (relation "measure id") auto

definition int_str :: "int \<Rightarrow> string" where
  "int_str n = (if n < 0 then CHR ''-'' # nat_digits (nat (- n)) else nat_digits (nat n))"

definition hex_digit :: "nat \<Rightarrow> char" where
  "hex_digit n = ''0123456789abcdef'' ! (n mod 16)"

definition repr_char :: "char \<Rightarrow> char \<Rightarrow> string" where
  "repr_char q c =
     (if c = CHR 0x5C then [CHR 0x5C, CHR 0x5C]
      else if c = q then [CHR 0x5C, q]
      else if c = CHR 0x0A then [CHR 0x5C, CHR ''n'']
      else if c = CHR 0x0D then [CHR 0x5C, CHR ''r'']
      else if c = CHR 0x09 then [CHR 0x5C, CHR ''t'']
      else if (of_char c :: nat) < 32 \<or> (of_char c :: nat) = 127
        then [CHR 0x5C, CHR ''x'', hex_digit (of_char c div 16), hex_digit (of_char c mod 16)]
      else [c])"

definition repr_str :: "string \<Rightarrow> string" where
  "repr_str s =
     (let q = (if CHR 0x27 \<in> set s \<and> CHR 0x22 \<notin> set s then CHR 0x22 else CHR 0x27)
      in [q] @ concat (map (repr_char q) s) @ [q])"

fun join :: "string \<Rightarrow> string list \<Rightarrow> string" where
  "join sep [] = []"
| "join sep [x] = x"
| "join sep (x # y # ys) = x @ sep @ join sep (y # ys)"

fun py_repr :: "json \<Rightarrow> string" where
  "py_repr JNull = ''None''"
| "py_repr (JBool b) = (if b then ''True'' else ''False'')"
| "py_repr (JInt n) = int_str n"
| "py_repr (JStr s) = repr_str s"
| "py_repr (JList xs) = ''['' @ join '', '' (map py_repr xs) @ '']''"
| "py_repr (JObj kvs) =
     ''{'' @ join '', '' (map (\<lambda>kv. repr_str (fst kv) @ '': '' @ py_repr (snd kv)) kvs) @ ''}''"

fun py_str :: "json \<Rightarrow> string" where
  "py_str (JStr s) = s"
| "py_str v = py_repr v"

section \<open>Data model and parsing\<close>

record User =
  id_u :: int
  name :: string
  nick :: string
  ava :: string
  admin :: bool
  is_verified :: bool
  ava_data_uri :: string

record Comment =
  id_c :: int
  text_html :: string
  created_iso :: string
  user :: User
  rating :: int
  sort_c :: int
  edited :: bool
  fixed :: bool
  comment_type :: int
  answer_comment_root_id :: int
  attaches :: json
  parent_id :: int
  reply_expected :: int

definition parse_user :: "json \<Rightarrow> error + User" where
  "parse_user u =
     ebind (py_get u ''id'' (JInt 0)) (\<lambda>v_id.
     ebind (py_int v_id) (\<lambda>i.
     ebind (py_get u ''name'' JNull) (\<lambda>v_name.
     ebind (py_get u ''nick'' JNull) (\<lambda>v_nick.
     ebind (py_get u ''ava'' JNull) (\<lambda>v_ava.
     ebind (py_get u ''admin'' (JBool False)) (\<lambda>v_admin.
     ebind (py_get u ''is_verified'' (JBool False)) (\<lambda>v_ver.
       Inr \<lparr>id_u = i,
            name = py_str (py_or v_name (JStr [])),
            nick = py_str (py_or v_nick (JStr [])),
            ava = py_str (py_or v_ava (JStr [])),
            admin = truthy v_admin,
            is_verified = truthy v_ver,
            ava_data_uri = []\<rparr>)))))))"

text \<open>
  \<open>COM_ANS_RE\<close> is the text \<open>data-id=\<close>, a double quote, one or more digits (the
  group) and a double quote. \<open>com_ans_match\<close> is its match at the head of a string,
  \<open>com_ans_search\<close> the leftmost match, as \<open>re.search\<close> finds it.
\<close>

definition dquote :: char where
  "dquote = CHR 0x22"


definition com_ans_match :: "string \<Rightarrow> string option" where
  "com_ans_match s =
     (if take 9 s = ''data-id='' @ [dquote] then
        (let ds = takeWhile is_digit (drop 9 s); rest = dropWhile is_digit (drop 9 s)
         in if ds \<noteq> [] \<and> take 1 rest = [dquote] then Some ds else None)
      else None)"

fun com_ans_search :: "string \<Rightarrow> string option" where
  "com_ans_search [] = None"
| "com_ans_search (c # cs) =
     (case com_ans_match (c # cs) of Some g \<Rightarrow> Some g | None \<Rightarrow> com_ans_search cs)"

definition rating_of :: "json \<Rightarrow> error + int" where
  "rating_of c =
     ebind (py_get c ''raiting'' JNull) (\<lambda>r.
       case r of
         JObj kvs \<Rightarrow> ebind (py_get r ''val'' (JInt 0)) py_int
       | _ \<Rightarrow> Inr 0)"

definition parse_comment :: "json \<Rightarrow> error + Comment" where
  "parse_comment c =
     ebind (rating_of c) (\<lambda>rating_val.
     ebind (py_get c ''answer_comment_count'' (JInt 0)) (\<lambda>v_cnt.
     ebind (py_int (py_or v_cnt (JInt 0))) (\<lambda>reply_exp.
     ebind (py_item c ''id'') (\<lambda>v_id.
     ebind (py_int v_id) (\<lambda>i.
     ebind (py_get c ''text_template'' JNull) (\<lambda>v_text.
     ebind (py_get c ''data_create'' JNull) (\<lambda>v_date.
     ebind (py_get c ''user'' JNull) (\<lambda>v_user.
     ebind (parse_user (py_or v_user (JObj []))) (\<lambda>usr.
     ebind (py_get c ''sort'' (JInt 0)) (\<lambda>v_sort.
     ebind (py_int v_sort) (\<lambda>srt.
     ebind (py_get c ''edited'' (JBool False)) (\<lambda>v_edited.
     ebind (py_get c ''fixed'' (JBool False)) (\<lambda>v_fixed.
     ebind (py_get c ''comment_type'' (JInt 0)) (\<lambda>v_type.
     ebind (py_int v_type) (\<lambda>ctype.
     ebind (py_get c ''answer_comment_root_id'' (JInt 0)) (\<lambda>v_root.
     ebind (py_int (py_or v_root (JInt 0))) (\<lambda>root_id.
     ebind (py_get c ''attaches'' JNull) (\<lambda>v_att.
       let text = py_str (py_or v_text (JStr []))
       in Inr \<lparr>id_c = i,
               text_html = text,
               created_iso = py_str (py_or v_date (JStr [])),
               user = usr,
               rating = rating_val,
               sort_c = srt,
               edited = truthy v_edited,
               fixed = truthy v_fixed,
               comment_type = ctype,
               answer_comment_root_id = root_id,
               attaches = py_or v_att (JList []),
               parent_id = (case com_ans_search text of Some g \<Rightarrow> digits_to_int g | None \<Rightarrow> 0),
               reply_expected = reply_exp\<rparr>))))))))))))))))))"

section \<open>Image links\<close>

definition lower_char :: "char \<Rightarrow> char" where
  "lower_char c =
     (if 65 \<le> (of_char c :: nat) \<and> (of_char c :: nat) \<le> 90 then char_of (of_char c + 32 :: nat)
      else c)"

definition lower :: "string \<Rightarrow> string" where
  "lower s = map lower_char s"

definition endswith :: "string \<Rightarrow> string \<Rightarrow> bool" where
  "endswith s suf = (length suf \<le> length s \<and> drop (length s - length suf) s = suf)"

definition IMAGE_EXTS :: "string list" where
  "IMAGE_EXTS = [''.png'', ''.jpg'', ''.jpeg'', ''.webp'', ''.gif'']"

definition looks_like_image :: "string \<Rightarrow> bool" where
  "looks_like_image url =
     (let low = lower (takeWhile (\<lambda>c. c \<noteq> CHR ''?'') url)
      in \<exists>ext \<in> set IMAGE_EXTS. endswith low ext)"

text \<open>
  \<open>HREF_RE\<close> is the text \<open>href=\<close>, a double quote, one or more characters other than
  a double quote (the group) and a double quote. \<open>href_findall\<close> collects the groups of
  the successive matches from left to right, each search starting where the match before
  it ended, as \<open>findall\<close> does.
\<close>

function href_findall :: "string \<Rightarrow> string list" where
  "href_findall [] = []"
| "href_findall (c # cs) =
     (let s = c # cs; body = takeWhile (\<lambda>x. x \<noteq> dquote) (drop 6 s);
          rest = dropWhile (\<lambda>x. x \<noteq> dquote) (drop 6 s)
      in if take 6 s = ''href='' @ [dquote] \<and> body \<noteq> [] \<and> rest \<noteq> []
         then body # href_findall (tl rest)
         else href_findall cs)"
  by pat_completeness auto
termination
proof (relation "measure length")
  show "wf (measure length)" by simp
next
  fix c :: char and cs x xa xb
  assume a: "xa = takeWhile (\<lambda>x. x \<noteq> dquote) (drop 6 x)"
    "xb = dropWhile (\<lambda>x. x \<noteq> dquote) (drop 6 x)" "x = c # cs"
    "take 6 x = ''href='' @ [dquote] \<and> xa \<noteq> [] \<and> xb \<noteq> []"
  have "length xb \<le> length (drop 6 x)"
    unfolding a(2) by (rule length_dropWhile_le)
  moreover have "length (tl xb) < length xb"
    using a(4) by (cases xb) auto
  ultimately show "(tl xb, c # cs) \<in> measure length"
    using a(3) by simp
next
  fix c :: char and cs x xa xb
  show "(cs, c # cs) \<in> measure length" by simp
qed

text \<open>
  \<open>PLAIN_URL_RE\<close>, compiled with \<open>IGNORECASE\<close>: \<open>http\<close>, an optional \<open>s\<close>,
  \<open>://\<close> and one or more characters that are neither whitespace nor one of
  \<open><\<close>, \<open>>\<close>, the double quote and the single quote; the group is the whole match.
\<close>

definition url_char :: "char \<Rightarrow> bool" where
  "url_char c = (\<not> py_isspace c \<and> c \<notin> {CHR ''<'', CHR ''>'', dquote, CHR 0x27})"

definition plain_url_match :: "string \<Rightarrow> string option" where
  "plain_url_match s =
     (if lower (take 4 s) = ''http'' then
        (let n = (if lower (take 1 (drop 4 s)) = ''s'' \<and> take 3 (drop 5 s) = ''://'' then 8
                  else if take 3 (drop 4 s) = ''://'' then 7 else 0);
             tail = takeWhile url_char (drop n s)
         in if n \<noteq> 0 \<and> tail \<noteq> [] then Some (take n s @ tail) else None)
      else None)"

function plain_url_findall :: "string \<Rightarrow> string list" where
  "plain_url_findall [] = []"
| "plain_url_findall (c # cs) =
     (case plain_url_match (c # cs) of
        Some m \<Rightarrow> m # plain_url_findall (drop (length m) (c # cs))
      | None \<Rightarrow> plain_url_findall cs)"
  by pat_completeness auto
termination
proof (relation "measure length")
  show "wf (measure length)" by simp
next
  fix c :: char and cs m
  assume "plain_url_match (c # cs) = Some m"
  then have "m \<noteq> []"
    by (auto simp: plain_url_match_def Let_def split: if_splits)
  then show "(drop (length m) (c # cs), c # cs) \<in> measure length"
    by (cases m) auto
next
  fix c :: char and cs
  show "(cs, c # cs) \<in> measure length" by simp
qed

section \<open>The outside world\<close>

text \<open>What \<open>session.get\<close> hands back when it does not raise.\<close>

record response =
  status_code :: int
  content_type :: "string option"
  content :: string

text \<open>
  The three calls of the comment API. The page URL, the timeout and the headers are the
  same in every call of a run and are left out.
\<close>

datatype request = First | Page int string int | Thread int string int

text \<open>
  The network is an oracle: the answer to a call may depend on every call issued before
  it. \<open>get_json\<close> either raises a \<open>RequestException\<close> (\<open>HTTPError\<close> is one) or
  returns the decoded body. \<open>set_iter\<close> is the order in which Python iterates over a
  set of strings built from the given insertions (it depends on the hash seed of the
  process).
\<close>

record env =
  get_json :: "request list \<Rightarrow> request \<Rightarrow> error + json"
  http_get :: "string list \<Rightarrow> string \<Rightarrow> error + response"
  set_iter :: "string list \<Rightarrow> string list"

text \<open>The effects of a run: API calls and GETs issued, sleeps taken.\<close>

record world =
  calls :: "request list"
  gets :: "string list"
  sleeps :: "rat list"

section \<open>Binary embedding\<close>

definition b64_alphabet :: string where
  "b64_alphabet = ''ABCDEFGHIJKLMNOPQRSTUVWXYZabcdefghijklmnopqrstuvwxyz0123456789+/''"

definition b64char :: "nat \<Rightarrow> char" where
  "b64char n = b64_alphabet ! (n mod 64)"

fun b64 :: "nat list \<Rightarrow> string" where
  "b64 [] = []"
| "b64 [a] = [b64char (a div 4), b64char ((a mod 4) * 16), CHR ''='', CHR ''='']"
| "b64 [a, b] =
     [b64char (a div 4), b64char ((a mod 4) * 16 + b div 16), b64char ((b mod 16) * 4),
      CHR ''='']"
| "b64 (a # b # c # rest) =
     [b64char (a div 4), b64char ((a mod 4) * 16 + b div 16),
      b64char ((b mod 16) * 4 + c div 64), b64char (c mod 64)] @ b64 rest"

definition b64encode :: "string \<Rightarrow> string" where
  "b64encode bs = b64 (map of_char bs)"

text \<open>
  \<open>(resp.headers.get("Content-Type", "") or "").split(";")[0].strip()
  or "application/octet-stream"\<close>
\<close>

definition ctype_of :: "response \<Rightarrow> string" where
  "ctype_of resp =
     (let h = (case content_type resp of None \<Rightarrow> [] | Some v \<Rightarrow> v);
          t = strip (takeWhile (\<lambda>c. c \<noteq> CHR '';'') h)
      in if t = [] then ''application/octet-stream'' else t)"

definition data_uri :: "response \<Rightarrow> string" where
  "data_uri resp = ''data:'' @ ctype_of resp @ '';base64,'' @ b64encode (content resp)"

text \<open>
  One pass of the body of the \<open>for\<close> loop of \<open>url_to_data_uri\<close>, before the sleep:
  the GET and the test of the response. \<open>None\<close> is a failed attempt
  (\<open>RequestException\<close>, a status other than 200, or an empty body).
\<close>

definition attempt :: "env \<Rightarrow> string list \<Rightarrow> string \<Rightarrow> string option" where
  "attempt e hist url =
     (case http_get e hist url of
        Inl _ \<Rightarrow> None
      | Inr resp \<Rightarrow>
          if status_code resp = 200 \<and> content resp \<noteq> [] then Some (data_uri resp)
          else None)"

text \<open>The loop \<open>for _ in range(max_retries)\<close> with its running \<open>delay\<close>.\<close>

fun fetch_loop :: "env \<Rightarrow> string \<Rightarrow> nat \<Rightarrow> rat \<Rightarrow> world \<Rightarrow> string option \<times> world" where
  "fetch_loop e url 0 delay w = (None, w)"
| "fetch_loop e url (Suc n) delay w =
     (let r = attempt e (gets w) url;
          w1 = w\<lparr>gets := gets w @ [url]\<rparr>
      in case r of
           Some d \<Rightarrow> (Some d, w1)
         | None \<Rightarrow> fetch_loop e url n (delay * 2) (w1\<lparr>sleeps := sleeps w1 @ [delay]\<rparr>))"

definition url_to_data_uri :: "env \<Rightarrow> string \<Rightarrow> int \<Rightarrow> world \<Rightarrow> string option \<times> world" where
  "url_to_data_uri e url max_retries w = fetch_loop e url (nat max_retries) (1 / 4) w"

section \<open>Embedding passes\<close>

text \<open>
  The loop \<open>for url in urls: cache[url] = url_to_data_uri(session, url, timeout);
  time.sleep(0.05)\<close>, which both passes run over their own, initially empty cache.
\<close>

fun fill_cache ::
  "env \<Rightarrow> string list \<Rightarrow> (string \<rightharpoonup> string option) \<times> world \<Rightarrow> (string \<rightharpoonup> string option) \<times> world"
where
  "fill_cache e [] (cache, w) = (cache, w)"
| "fill_cache e (url # urls) (cache, w) =
     (let (r, w1) = url_to_data_uri e url 3 w
      in fill_cache e urls (cache(url \<mapsto> r), w1\<lparr>sleeps := sleeps w1 @ [1 / 20]\<rparr>))"

text \<open>\<open>cache.get(u)\<close>, as a truth value and as the string found.\<close>

definition cache_get :: "(string \<rightharpoonup> string option) \<Rightarrow> string \<Rightarrow> string option" where
  "cache_get cache u =
     (case cache u of Some (Some d) \<Rightarrow> (if d \<noteq> [] then Some d else None) | _ \<Rightarrow> None)"

definition embed_avatars :: "env \<Rightarrow> Comment list \<Rightarrow> world \<Rightarrow> Comment list \<times> world" where
  "embed_avatars e comments w =
     (let urls = set_iter e (map (\<lambda>c. ava (user c)) (filter (\<lambda>c. ava (user c) \<noteq> []) comments));
          (cache, w') = fill_cache e urls (Map.empty, w)
      in (map (\<lambda>c. case (if ava (user c) \<noteq> [] then cache_get cache (ava (user c)) else None) of
                      Some d \<Rightarrow> c\<lparr>user := (user c)\<lparr>ava_data_uri := d\<rparr>\<rparr>
                    | None \<Rightarrow> c) comments, w'))"

text \<open>Running a loop body that may raise over a list, collecting what it yields.\<close>

fun collect_e :: "('a \<Rightarrow> error + 'b list) \<Rightarrow> 'a list \<Rightarrow> error + 'b list" where
  "collect_e f [] = Inr []"
| "collect_e f (x # xs) =
     (case f x of
        Inl err \<Rightarrow> Inl err
      | Inr ys \<Rightarrow> (case collect_e f xs of Inl err \<Rightarrow> Inl err | Inr zs \<Rightarrow> Inr (ys @ zs)))"

text \<open>The body of the loop over \<open>c.attaches\<close>: the URLs one attachment adds.\<close>

definition attach_urls :: "json \<Rightarrow> error + string list" where
  "attach_urls a =
     ebind (py_get a ''type'' JNull) (\<lambda>t.
       if t = JStr ''richpreview'' then
         ebind (py_get a ''data'' JNull) (\<lambda>d.
         ebind (py_get (py_or d (JObj [])) ''url'' JNull) (\<lambda>u.
           case py_or u (JStr []) of
             JStr s \<Rightarrow> Inr (if looks_like_image s then [s] else [])
           | _ \<Rightarrow> Inl AttributeError))
       else Inr [])"

definition discover_image_links :: "Comment \<Rightarrow> error + string list" where
  "discover_image_links c =
     (let hrefs = filter looks_like_image (href_findall (text_html c));
          plains = filter looks_like_image (plain_url_findall (text_html c))
      in ebind (py_iter (py_or (attaches c) (JList []))) (\<lambda>atts.
         ebind (collect_e attach_urls atts) (\<lambda>us.
           Inr (sort (remdups (hrefs @ plains @ us))))))"

text \<open>\<open>d[k] = v\<close> on a dictionary kept in insertion order.\<close>

fun dict_set :: "'k \<Rightarrow> 'v \<Rightarrow> ('k \<times> 'v) list \<Rightarrow> ('k \<times> 'v) list" where
  "dict_set k v [] = [(k, v)]"
| "dict_set k v ((k', v') # kvs) =
     (if k = k' then (k, v) # kvs else (k', v') # dict_set k v kvs)"

text \<open>The first loop of \<open>embed_linked_images\<close>: \<open>per_comment_urls\<close> and \<open>all_urls\<close>.\<close>

fun gather_urls ::
  "Comment list \<Rightarrow> (int \<times> string list) list \<times> string list
     \<Rightarrow> error + (int \<times> string list) list \<times> string list"
where
  "gather_urls [] acc = Inr acc"
| "gather_urls (c # cs) (per_comment_urls, all_urls) =
     (case discover_image_links c of
        Inl err \<Rightarrow> Inl err
      | Inr ulist \<Rightarrow>
          if ulist \<noteq> [] then gather_urls cs (dict_set (id_c c) ulist per_comment_urls, all_urls @ ulist)
          else gather_urls cs (per_comment_urls, all_urls))"

text \<open>The last loop: the pairs of one comment, and the dictionary of all of them.\<close>

definition resolved_items :: "(string \<rightharpoonup> string option) \<Rightarrow> string list \<Rightarrow> (string \<times> string) list" where
  "resolved_items cache ulist =
     concat (map (\<lambda>u. case cache_get cache u of Some d \<Rightarrow> [(u, d)] | None \<Rightarrow> []) ulist)"

fun record_items ::
  "(string \<rightharpoonup> string option) \<Rightarrow> (int \<times> string list) list \<Rightarrow> (int \<times> (string \<times> string) list) list
     \<Rightarrow> (int \<times> (string \<times> string) list) list"
where
  "record_items cache [] by_comment = by_comment"
| "record_items cache ((cid, ulist) # rest) by_comment =
     (let items = resolved_items cache ulist
      in record_items cache rest (if items \<noteq> [] then dict_set cid items by_comment else by_comment))"

definition embed_linked_images ::
  "env \<Rightarrow> Comment list \<Rightarrow> world \<Rightarrow> error + (int \<times> (string \<times> string) list) list \<times> world"
where
  "embed_linked_images e comments w =
     ebind (gather_urls comments ([], [])) (\<lambda>(per_comment_urls, all_urls).
       let (cache, w') = fill_cache e (set_iter e all_urls) (Map.empty, w)
       in Inr (record_items cache per_comment_urls [], w'))"

section \<open>Collection\<close>

text \<open>The local variables of \<open>collect_all_comments\<close> that its loops update.\<close>

record cstate =
  seen :: "int set"
  comments :: "Comment list"
  pages_done :: int
  by_root_count :: "int \<rightharpoonup> int"
  wld :: world

record meta =
  title :: string
  site_id :: int
  hash :: string
  total_reported :: int
  pages :: int

text \<open>
  The loop \<open>for c in raw: cm = parse_comment(c); if cm.id not in seen: seen.add(cm.id);
  comments.append(cm); added += 1\<close>, which the function runs on the first batch, on
  every older page and on every thread.
\<close>

fun merge_records ::
  "json list \<Rightarrow> int set \<times> Comment list \<times> int \<Rightarrow> error + int set \<times> Comment list \<times> int"
where
  "merge_records [] acc = Inr acc"
| "merge_records (c # cs) (sn, cms, added) =
     (case parse_comment c of
        Inl err \<Rightarrow> Inl err
      | Inr cm \<Rightarrow>
          if id_c cm \<notin> sn then merge_records cs (insert (id_c cm) sn, cms @ [cm], added + 1)
          else merge_records cs (sn, cms, added))"

definition current_min_sort :: "Comment list \<Rightarrow> int" where
  "current_min_sort cms = (if cms = [] then 0 else min_list (map sort_c cms))"

datatype 'a flow = Break 'a | Continue 'a

definition sleep :: "rat \<Rightarrow> world \<Rightarrow> world" where
  "sleep d w = w\<lparr>sleeps := sleeps w @ [d]\<rparr>"

definition issue :: "request \<Rightarrow> world \<Rightarrow> world" where
  "issue rq w = w\<lparr>calls := calls w @ [rq]\<rparr>"

text \<open>
  \<open>(resp.get("data") or {}).get("comments") or []\<close>, the records of a page or of a
  thread.
\<close>

definition raw_comments :: "json \<Rightarrow> error + json" where
  "raw_comments resp =
     ebind (py_get resp ''data'' JNull) (\<lambda>d.
     ebind (py_get (py_or d (JObj [])) ''comments'' JNull) (\<lambda>cr.
       Inr (py_or cr (JList []))))"

text \<open>One round of the \<open>while\<close> loop, after its test \<open>pages_done < max_pages\<close>.\<close>

definition page_iteration :: "env \<Rightarrow> int \<Rightarrow> string \<Rightarrow> cstate \<Rightarrow> error + cstate flow" where
  "page_iteration e sid hash_val st =
     (let cursor = current_min_sort (comments st)
      in if cursor \<le> 0 then Inr (Break st)
         else
           (let rq = Page sid hash_val cursor
            in case get_json e (calls (wld st)) rq of
                 Inl err \<Rightarrow> Inl err
               | Inr resp \<Rightarrow>
                   (let st1 = st\<lparr>pages_done := pages_done st + 1, wld := issue rq (wld st)\<rparr>
                    in ebind (raw_comments resp) (\<lambda>new_raw.
                         if \<not> truthy new_raw then Inr (Break st1)
                         else
                           ebind (py_iter new_raw) (\<lambda>items.
                           ebind (merge_records items (seen st1, comments st1, 0)) (\<lambda>(sn, cms, added).
                             let st2 = st1\<lparr>seen := sn, comments := cms\<rparr>
                             in if added = 0 then Inr (Break st2)
                                else Inr (Continue (st2\<lparr>wld := sleep (3 / 25) (wld st2)\<rparr>))))))))"

function paginate :: "env \<Rightarrow> int \<Rightarrow> string \<Rightarrow> int \<Rightarrow> cstate \<Rightarrow> error + cstate" where
  "paginate e sid hash_val max_pages st =
     (if pages_done st < max_pages then
        (case page_iteration e sid hash_val st of
           Inl err \<Rightarrow> Inl err
         | Inr (Break st') \<Rightarrow> Inr st'
         | Inr (Continue st') \<Rightarrow> paginate e sid hash_val max_pages st')
      else Inr st)"
  by pat_completeness auto
termination
proof (relation "measure (\<lambda>(e, sid, hash_val, max_pages, st). nat (max_pages - pages_done st))")
  show "wf (measure (\<lambda>(e, sid, hash_val, max_pages, st). nat (max_pages - pages_done st)))"
    by simp
next
  fix e sid hash_val max_pages st b st'
  assume lt: "pages_done st < max_pages"
    and it: "page_iteration e sid hash_val st = Inr b" "b = Continue st'"
  from it have "pages_done st' = pages_done st + 1"
    by (auto simp: page_iteration_def ebind_def Let_def split: if_splits sum.splits prod.splits)
  with lt show "((e, sid, hash_val, max_pages, st'), (e, sid, hash_val, max_pages, st))
      \<in> measure (\<lambda>(e, sid, hash_val, max_pages, st). nat (max_pages - pages_done st))"
    by simp
qed

text \<open>The dictionary \<open>by_root_count\<close> as the function builds it before the thread loop.\<close>

definition count_by_root :: "Comment list \<Rightarrow> (int \<rightharpoonup> int)" where
  "count_by_root cms =
     foldl (\<lambda>m c. if answer_comment_root_id c \<noteq> 0
                   then m(answer_comment_root_id c \<mapsto>
                          (case m (answer_comment_root_id c) of None \<Rightarrow> 0 | Some n \<Rightarrow> n) + 1)
                   else m) Map.empty cms"

text \<open>The body of \<open>if expected > have\<close> once \<open>thread_call\<close> has returned \<open>tdata\<close>.\<close>

definition thread_merge :: "Comment \<Rightarrow> json \<Rightarrow> cstate \<Rightarrow> error + cstate" where
  "thread_merge root_c tdata st =
     ebind (raw_comments tdata) (\<lambda>tcomments_raw.
     ebind (py_iter tcomments_raw) (\<lambda>items.
     ebind (merge_records items (seen st, comments st, 0)) (\<lambda>(sn, cms, added).
       Inr (st\<lparr>seen := sn, comments := cms,
               by_root_count :=
                 (if added \<noteq> 0
                  then (by_root_count st)(id_c root_c \<mapsto>
                         int (length (filter (\<lambda>c. answer_comment_root_id c = id_c root_c) cms)))
                  else by_root_count st),
               wld := sleep (2 / 25) (wld st)\<rparr>))))"

fun thread_loop :: "env \<Rightarrow> int \<Rightarrow> string \<Rightarrow> Comment list \<Rightarrow> cstate \<Rightarrow> error + cstate" where
  "thread_loop e sid hash_val [] st = Inr st"
| "thread_loop e sid hash_val (root_c # roots) st =
     (let expected = reply_expected root_c;
          have_n = (case by_root_count st (id_c root_c) of None \<Rightarrow> 0 | Some n \<Rightarrow> n)
      in if expected > have_n then
           (let rq = Thread sid hash_val (id_c root_c);
                st1 = st\<lparr>wld := issue rq (wld st)\<rparr>
            in case get_json e (calls (wld st)) rq of
                 Inl err \<Rightarrow>
                   (if err = RequestException then thread_loop e sid hash_val roots st1
                    else Inl err)
               | Inr tdata \<Rightarrow>
                   (case thread_merge root_c tdata st1 of
                      Inl err \<Rightarrow> Inl err
                    | Inr st2 \<Rightarrow> thread_loop e sid hash_val roots st2))
         else thread_loop e sid hash_val roots st)"

text \<open>Step 3 of \<open>collect_all_comments\<close>: per-thread completion.\<close>

definition thread_completion :: "env \<Rightarrow> int \<Rightarrow> string \<Rightarrow> cstate \<Rightarrow> error + cstate" where
  "thread_completion e sid hash_val st =
     thread_loop e sid hash_val (filter (\<lambda>c. answer_comment_root_id c = 0) (comments st))
       (st\<lparr>by_root_count := count_by_root (comments st)\<rparr>)"

text \<open>Step 1: the first call, the chat metadata and the initial batch.\<close>

definition initial_batch :: "env \<Rightarrow> world \<Rightarrow> error + meta \<times> cstate" where
  "initial_batch e w =
     (case get_json e (calls w) First of
        Inl err \<Rightarrow> Inl err
      | Inr initial \<Rightarrow>
          ebind (py_get initial ''data'' JNull) (\<lambda>d. let data = py_or d (JObj []) in
          ebind (py_get data ''chat'' JNull) (\<lambda>ch. let chat = py_or ch (JObj []) in
          ebind (py_get data ''comments'' JNull) (\<lambda>cr. let comments_raw = py_or cr (JList []) in
          ebind (py_get chat ''site_id'' (JInt 6289)) (\<lambda>v_sid.
          ebind (py_int v_sid) (\<lambda>sid.
          ebind (py_get chat ''hash'' JNull) (\<lambda>v_hash.
          ebind (py_get chat ''title'' JNull) (\<lambda>v_title.
          ebind (py_get chat ''count_comment_all'' (JInt 0)) (\<lambda>v_total.
          ebind (py_int v_total) (\<lambda>total_count.
          ebind (py_iter comments_raw) (\<lambda>items.
          ebind (merge_records items ({}, [], 0)) (\<lambda>(sn, cms, added).
            Inr (\<lparr>title = py_str (py_or v_title (JStr ''FitGirl Comments'')),
                  site_id = sid,
                  hash = py_str (py_or v_hash (JStr ''null'')),
                  total_reported = total_count,
                  pages = 0\<rparr>,
                 \<lparr>seen = sn, comments = cms, pages_done = 0, by_root_count = Map.empty,
                  wld = issue First w\<rparr>)))))))))))))"

definition collect_all_comments ::
  "env \<Rightarrow> int \<Rightarrow> world
     \<Rightarrow> error + meta \<times> Comment list \<times> (int \<times> (string \<times> string) list) list \<times> world"
where
  "collect_all_comments e max_pages w =
     ebind (initial_batch e w) (\<lambda>(m, st0).
     ebind (paginate e (site_id m) (hash m) max_pages st0) (\<lambda>st1.
     ebind (thread_completion e (site_id m) (hash m) st1) (\<lambda>st2.
       let (cms, w1) = embed_avatars e (comments st2) (wld st2)
       in ebind (embed_linked_images e cms w1) (\<lambda>(imgs_by_comment, w2).
            Inr (m\<lparr>pages := pages_done st2\<rparr>, cms, imgs_by_comment, w2)))))"

section \<open>Tree assembly\<close>

text \<open>The first loop of \<open>build_html\<close>, which rewrites \<open>parent_id\<close> in place.\<close>

definition reconcile :: "Comment list \<Rightarrow> Comment list" where
  "reconcile cms =
     map (\<lambda>c. if answer_comment_root_id c = 0 then c\<lparr>parent_id := 0\<rparr>
               else if parent_id c \<noteq> 0 \<and> parent_id c \<in> id_c ` set cms then c
               else c\<lparr>parent_id := answer_comment_root_id c\<rparr>) cms"

text \<open>The second loop: \<open>children.setdefault(c.parent_id, []).append(c)\<close> and \<open>roots\<close>.\<close>

definition children_map :: "Comment list \<Rightarrow> (int \<rightharpoonup> Comment list)" where
  "children_map cms =
     foldl (\<lambda>m c. if answer_comment_root_id c = 0 then m
                   else m(parent_id c \<mapsto> (case m (parent_id c) of None \<Rightarrow> [] | Some ks \<Rightarrow> ks) @ [c]))
       Map.empty cms"

definition roots_of :: "Comment list \<Rightarrow> Comment list" where
  "roots_of cms = filter (\<lambda>c. answer_comment_root_id c = 0) cms"

text \<open>
  \<open>sorted(xs, key=k)\<close> is a stable sort; with \<open>reverse=True\<close> the list is reversed,
  sorted stably and reversed again.
\<close>

definition py_sorted :: "('a \<Rightarrow> int) \<Rightarrow> 'a list \<Rightarrow> 'a list" where
  "py_sorted k xs = sort_key k xs"

definition py_sorted_reverse :: "('a \<Rightarrow> int) \<Rightarrow> 'a list \<Rightarrow> 'a list" where
  "py_sorted_reverse k xs = rev (sort_key k (rev xs))"

text \<open>
  The rendered document, kept as the tree of its cards: each node is a comment, the
  embedded images shown with it, and the nodes of its replies in the order in which they
  are written out.
\<close>

datatype rnode = RNode Comment "(string \<times> string) list" "rnode list"

definition imgs_get :: "(int \<times> (string \<times> string) list) list \<Rightarrow> int \<Rightarrow> (string \<times> string) list" where
  "imgs_get imgs_by_comment i = (case map_of imgs_by_comment i of None \<Rightarrow> [] | Some items \<Rightarrow> items)"

text \<open>
  \<open>render_reply_tree\<close> calls itself once for every reply below \<open>node_id\<close>. The first
  argument is the number of nested calls the interpreter still allows; \<open>None\<close> is the
  run in which that limit is hit.
\<close>

fun render_reply_tree ::
  "nat \<Rightarrow> int \<Rightarrow> (int \<rightharpoonup> Comment list) \<Rightarrow> (int \<times> (string \<times> string) list) list \<Rightarrow> rnode list option"
where
  "render_reply_tree 0 node_id children imgs = None"
| "render_reply_tree (Suc depth) node_id children imgs =
     (let kids = (case children node_id of None \<Rightarrow> [] | Some ks \<Rightarrow> ks)
      in if kids = [] then Some []
         else those (map (\<lambda>rc. map_option (RNode rc (imgs_get imgs (id_c rc)))
                                  (render_reply_tree depth (id_c rc) children imgs))
                        (py_sorted sort_c kids)))"

definition render_root ::
  "nat \<Rightarrow> Comment \<Rightarrow> (int \<rightharpoonup> Comment list) \<Rightarrow> (int \<times> (string \<times> string) list) list \<Rightarrow> rnode option"
where
  "render_root depth root_c children imgs =
     map_option (RNode root_c (imgs_get imgs (id_c root_c)))
       (render_reply_tree depth (id_c root_c) children imgs)"

text \<open>
  \<open>build_html\<close> returns the comments as its first loop leaves them together with the
  cards of the document.
\<close>

definition build_html ::
  "nat \<Rightarrow> Comment list \<Rightarrow> (int \<times> (string \<times> string) list) list \<Rightarrow> Comment list \<times> rnode list option"
where
  "build_html depth cms imgs =
     (let cms' = reconcile cms;
          children = children_map cms';
          roots_sorted = py_sorted_reverse sort_c (roots_of cms')
      in (cms', those (map (\<lambda>r. render_root depth r children imgs) roots_sorted)))"

datatype outcome = Exited nat | Uncaught error | RecursionLimit | Wrote "rnode list"

definition startswith :: "string \<Rightarrow> string \<Rightarrow> bool" where
  "startswith s p = (take (length p) s = p)"

definition main :: "env \<Rightarrow> nat \<Rightarrow> string \<Rightarrow> int \<Rightarrow> world \<Rightarrow> outcome" where
  "main e depth url max_pages w =
     (let game_url = strip url
      in if \<not> (startswith game_url ''http://'' \<or> startswith game_url ''https://'') then Exited 2
         else
           (case collect_all_comments e max_pages w of
              Inl err \<Rightarrow> (if err = RequestException then Exited 1 else Uncaught err)
            | Inr (m, cms, imgs, w') \<Rightarrow>
                (case snd (build_html depth cms imgs) of
                   None \<Rightarrow> RecursionLimit
                 | Some items \<Rightarrow> Wrote items)))"

section \<open>Stating the ordering contract\<close>

fun node_comment :: "rnode \<Rightarrow> Comment" where
  "node_comment (RNode c imgs kids) = c"

text \<open>The replies filed under a parent id, in the order of the collection.\<close>

definition replies_to :: "Comment list \<Rightarrow> int \<Rightarrow> Comment list" where
  "replies_to cms n = filter (\<lambda>c. answer_comment_root_id c \<noteq> 0 \<and> parent_id c = n) cms"

text \<open>
  \<open>ys\<close> is \<open>xs\<close> put in ascending (descending) order of sort key, comments that share
  a sort key keeping the order they have in \<open>xs\<close>.
\<close>

definition same_ties :: "Comment list \<Rightarrow> Comment list \<Rightarrow> bool" where
  "same_ties xs ys =
     list_all (\<lambda>k. filter (\<lambda>c. sort_c c = k) ys = filter (\<lambda>c. sort_c c = k) xs)
       (map sort_c (xs @ ys))"

definition ascending_stable :: "Comment list \<Rightarrow> Comment list \<Rightarrow> bool" where
  "ascending_stable xs ys = (sorted (map sort_c ys) \<and> same_ties xs ys)"

definition descending_stable :: "Comment list \<Rightarrow> Comment list \<Rightarrow> bool" where
  "descending_stable xs ys = (sorted (rev (map sort_c ys)) \<and> same_ties xs ys)"

text \<open>At every depth below a card the replies are the ordered replies of that comment.\<close>

fun replies_ordered :: "Comment list \<Rightarrow> rnode \<Rightarrow> bool" where
  "replies_ordered cms (RNode c imgs kids) =
     (ascending_stable (replies_to cms (id_c c)) (map node_comment kids) \<and>
      list_all (replies_ordered cms) kids)"

text \<open>A chain of replies, each filed under the one before it, the first under \<open>n\<close>.\<close>

fun chain :: "Comment list \<Rightarrow> int \<Rightarrow> Comment list \<Rightarrow> bool" where
  "chain cms n [] = True"
| "chain cms n (c # cs) =
     (c \<in> set cms \<and> answer_comment_root_id c \<noteq> 0 \<and> parent_id c = n \<and> chain cms (id_c c) cs)"

text \<open>
  Following inferred parents upwards from the id \<open>p\<close>: does the walk arrive at the root
  id \<open>r\<close> within the given number of steps? The walk ends without success at an id
  that is not in the collection and at a root other than \<open>r\<close>.
\<close>

fun resolves_to :: "nat \<Rightarrow> Comment list \<Rightarrow> int \<Rightarrow> int \<Rightarrow> bool" where
  "resolves_to 0 cms r p = (p = r)"
| "resolves_to (Suc k) cms r p =
     (p = r \<or>
      (case find (\<lambda>d. id_c d = p) cms of
         None \<Rightarrow> False
       | Some d \<Rightarrow> answer_comment_root_id d \<noteq> 0 \<and> resolves_to k cms r (parent_id d)))"

text \<open>The keys of a raw comment record that \<open>parse_comment\<close> reads with \<open>get\<close>.\<close>

definition optional_keys :: "string list" where
  "optional_keys =
     [''raiting'', ''answer_comment_count'', ''text_template'', ''data_create'', ''user'',
      ''sort'', ''edited'', ''fixed'', ''comment_type'', ''answer_comment_root_id'',
      ''attaches'']"

section \<open>Stating the collection invariant\<close>

text \<open>The collection is keyed by id: \<open>seen\<close> is the set of ids held, each held once.\<close>

definition keyed_by_id :: "cstate \<Rightarrow> bool" where
  "keyed_by_id st = (seen st = id_c ` set (comments st) \<and> distinct (map id_c (comments st)))"

text \<open>The replies held for a root: the collected comments filed under its id.\<close>

definition replies_held :: "Comment list \<Rightarrow> Comment \<Rightarrow> int" where
  "replies_held cms r =
     int (length (filter (\<lambda>c. answer_comment_root_id c \<noteq> 0 \<and> answer_comment_root_id c = id_c r) cms))"

text \<open>A comment with its embedding field, and with its inferred parent, blanked.\<close>

definition forget_embedding :: "Comment \<Rightarrow> Comment" where
  "forget_embedding c = c\<lparr>user := (user c)\<lparr>ava_data_uri := []\<rparr>\<rparr>"

definition forget_parent :: "Comment \<Rightarrow> Comment" where
  "forget_parent c = c\<lparr>parent_id := 0\<rparr>"

section \<open>Stating the properties of the embedding passes\<close>

text \<open>Iterating over a set visits each of its elements once.\<close>

definition set_iter_ok :: "env \<Rightarrow> bool" where
  "set_iter_ok e = (\<forall>xs. distinct (set_iter e xs) \<and> set (set_iter e xs) = set xs)"

text \<open>The image links of all comments, in the order in which the pass collects them.\<close>

definition all_image_links :: "Comment list \<Rightarrow> string list" where
  "all_image_links cms =
     concat (map (\<lambda>c. case discover_image_links c of Inl err \<Rightarrow> [] | Inr ulist \<Rightarrow> ulist) cms)"

definition avatar_urls :: "Comment list \<Rightarrow> string list" where
  "avatar_urls cms = map (\<lambda>c. ava (user c)) (filter (\<lambda>c. ava (user c) \<noteq> []) cms)"

section \<open>Sample runs\<close>

text \<open>A server that fails the first two GETs of a run and then serves a small PNG body.\<close>

definition flaky_env :: env where
  "flaky_env =
     \<lparr>get_json = (\<lambda>hist rq. Inl RequestException),
      http_get = (\<lambda>hist url. if length hist < 2 then Inl RequestException
                      else Inr \<lparr>status_code = 200, content_type = Some ''image/png; charset=binary'',
                                content = ''Man''\<rparr>),
      set_iter = remdups\<rparr>"




text \<open>A comment with the given id, sort key, root id and inferred parent, all else empty.\<close>

definition blank_user :: User where
  "blank_user = \<lparr>id_u = 0, name = [], nick = [], ava = [], admin = False, is_verified = False,
     ava_data_uri = []\<rparr>"

definition mk :: "int \<Rightarrow> int \<Rightarrow> int \<Rightarrow> int \<Rightarrow> Comment" where
  "mk i s r p = \<lparr>id_c = i, text_html = [], created_iso = [], user = blank_user, rating = 0,
     sort_c = s, edited = False, fixed = False, comment_type = 0, answer_comment_root_id = r,
     attaches = JList [], parent_id = p, reply_expected = 0\<rparr>"

text \<open>
  Four roots with sort keys 10, 5, 20 and 10 again; three replies to the first root with
  sort keys 3, 1 and 2, the last two with no parent found in their markup; two replies to
  the reply with sort key 1.
\<close>

definition sample_forum :: "Comment list" where
  "sample_forum =
     [mk 1 10 0 0, mk 2 5 0 0, mk 3 20 0 0, mk 4 10 0 0,
      mk 11 3 1 1, mk 12 1 1 0, mk 13 2 1 0, mk 14 9 1 12, mk 15 8 1 12]"

definition sample_tree :: "rnode list" where
  "sample_tree =
     [RNode (mk 3 20 0 0) [] [],
      RNode (mk 1 10 0 0) []
        [RNode (mk 12 1 1 1) [] [RNode (mk 15 8 1 12) [] [], RNode (mk 14 9 1 12) [] []],
         RNode (mk 13 2 1 1) [] [],
         RNode (mk 11 3 1 1) [] []],
      RNode (mk 4 10 0 0) [] [],
      RNode (mk 2 5 0 0) [] []]"

text \<open>
  Two threads: root 4 with the reply 5, root 1 with the reply 3, whose markup names
  comment 5 of the other thread as its parent.
\<close>

definition cross_thread :: "Comment list" where
  "cross_thread = [mk 4 40 0 0, mk 5 1 4 0, mk 1 10 0 0, mk 3 2 1 5]"

text \<open>A reply to root 42 as the API sends it, with no parent reference in its markup.\<close>

definition plain_reply_raw :: json where
  "plain_reply_raw =
     JObj [(''id'', JInt 7), (''text_template'', JStr ''<p>hello</p>''), (''sort'', JInt 3),
           (''answer_comment_root_id'', JInt 42)]"

definition plain_reply :: Comment where
  "plain_reply = (mk 7 3 42 0)\<lparr>text_html := ''<p>hello</p>''\<rparr>"

text \<open>Raw records and API responses for the sample servers.\<close>

definition rec_of :: "int \<Rightarrow> int \<Rightarrow> json" where
  "rec_of i s = JObj [(''id'', JInt i), (''sort'', JInt s)]"

definition page_of :: "json list \<Rightarrow> json" where
  "page_of recs = JObj [(''data'', JObj [(''comments'', JList recs)])]"

definition idle :: world where
  "idle = \<lparr>calls = [], gets = [], sleeps = []\<rparr>"

text \<open>A server that answers every call with the same single record.\<close>

definition echo_env :: env where
  "echo_env =
     \<lparr>get_json = (\<lambda>hist rq. Inr (page_of [rec_of 1 5])),
      http_get = (\<lambda>hist url. Inl RequestException),
      set_iter = remdups\<rparr>"

text \<open>A server whose first page is fine and whose every later call fails.\<close>

definition fail_env :: env where
  "fail_env =
     \<lparr>get_json = (\<lambda>hist rq. if rq = First then Inr (page_of [rec_of 1 5]) else Inl RequestException),
      http_get = (\<lambda>hist url. Inl RequestException),
      set_iter = remdups\<rparr>"

text \<open>A server that serves the first page and one older page and then fails.\<close>

definition late_fail_env :: env where
  "late_fail_env =
     \<lparr>get_json = (\<lambda>hist rq. if rq = First then Inr (page_of [rec_of 1 5])
                     else if rq = Page 6289 ''null'' 5 then Inr (page_of [rec_of 2 3])
                     else Inl RequestException),
      http_get = (\<lambda>hist url. Inl RequestException),
      set_iter = remdups\<rparr>"

text \<open>
  The state after pagination in a run that holds root 1, which announces five replies
  and has two collected, and root 2, which announces one reply and has it. The thread of
  root 1 as the server sends it on request: the two replies held and a third one.
\<close>

definition reply_rec :: "int \<Rightarrow> int \<Rightarrow> int \<Rightarrow> json" where
  "reply_rec i s r = JObj [(''id'', JInt i), (''sort'', JInt s), (''answer_comment_root_id'', JInt r)]"

definition thread_env :: env where
  "thread_env =
     \<lparr>get_json = (\<lambda>hist rq. if rq = Thread 6289 ''null'' 1
                     then Inr (page_of [reply_rec 11 3 1, reply_rec 12 4 1, reply_rec 13 6 1])
                     else Inl RequestException),
      http_get = (\<lambda>hist url. Inl RequestException),
      set_iter = remdups\<rparr>"

definition held :: "Comment list" where
  "held = [(mk 1 10 0 0)\<lparr>reply_expected := 5\<rparr>, mk 11 3 1 0, mk 12 4 1 0,
           (mk 2 20 0 0)\<lparr>reply_expected := 1\<rparr>, mk 21 5 2 0]"

definition after_pages :: cstate where
  "after_pages = \<lparr>seen = {1, 11, 12, 2, 21}, comments = held, pages_done = 1,
     by_root_count = Map.empty, wld = \<lparr>calls = [First, Page 6289 ''null'' 3], gets = [], sleeps = []\<rparr>\<rparr>"

text \<open>
  A server that repeats ids: the first page holds id 1 twice, with sort keys 5 and 9, and
  the older page holds id 1 again, with sort key 7, and a new id 2.
\<close>

definition dup_env :: env where
  "dup_env =
     \<lparr>get_json = (\<lambda>hist rq. if rq = First then Inr (page_of [rec_of 1 5, rec_of 1 9])
                     else if rq = Page 6289 ''null'' 5 then Inr (page_of [rec_of 1 7, rec_of 2 0])
                     else Inl RequestException),
      http_get = (\<lambda>hist url. Inl RequestException),
      set_iter = remdups\<rparr>"

text \<open>
  A server of images that fails for \<open>b.png\<close> and serves every other URL, and a comment
  whose body names \<open>b.png\<close> before \<open>a.png\<close>, names \<open>a.png\<close> twice, carries a
  link preview of a GIF and whose author has \<open>a.png\<close> as avatar.
\<close>

definition img_env :: env where
  "img_env =
     \<lparr>get_json = (\<lambda>hist rq. Inl RequestException),
      http_get = (\<lambda>hist url. if url = ''http://x/b.png'' then Inl RequestException
                      else Inr \<lparr>status_code = 200, content_type = None, content = ''Man''\<rparr>),
      set_iter = remdups\<rparr>"

definition poster :: Comment where
  "poster = (mk 1 7 0 0)
     \<lparr>text_html := ''see http://x/b.png and http://x/a.png and http://x/a.png'',
      user := blank_user\<lparr>ava := ''http://x/a.png''\<rparr>,
      attaches := JList [JObj [(''type'', JStr ''richpreview''),
                               (''data'', JObj [(''url'', JStr ''http://x/0.GIF?q'')])]]\<rparr>"

text \<open>
  A run with one comment, whose author's avatar is also linked in its body, against a
  server that serves every image at the first attempt.
\<close>

definition avatar_rec :: json where
  "avatar_rec =
     JObj [(''id'', JInt 7), (''text_template'', JStr ''see http://x/a.png''),
           (''user'', JObj [(''ava'', JStr ''http://x/a.png'')])]"

definition ok_env :: env where
  "ok_env =
     \<lparr>get_json = (\<lambda>hist rq. if rq = First then Inr (page_of [avatar_rec]) else Inl RequestException),
      http_get = (\<lambda>hist url. Inr \<lparr>status_code = 200, content_type = None, content = ''Man''\<rparr>),
      set_iter = remdups\<rparr>"

section \<open>Basic facts\<close>

lemma ebind_Inl [simp]: "ebind (Inl err) f = Inl err"
  by (simp add: ebind_def)

lemma ebind_Inr [simp]: "ebind (Inr x) f = f x"
  by (simp add: ebind_def)

lemma ebind_eq_Inr: "ebind m f = Inr y \<longleftrightarrow> (\<exists>x. m = Inr x \<and> f x = Inr y)"
  by (cases m) auto

lemma those_eq_Some: "those xs = Some ys \<longleftrightarrow> xs = map Some ys"
  by (induction xs arbitrary: ys) (auto split: option.splits)

lemma those_eq_None: "those xs = None \<longleftrightarrow> None \<in> set xs"
  by (induction xs) (auto split: option.splits)


lemma mk_sel [simp]:
  "id_c (mk i s r p) = i" "sort_c (mk i s r p) = s" "answer_comment_root_id (mk i s r p) = r"
  "parent_id (mk i s r p) = p" "reply_expected (mk i s r p) = 0" "user (mk i s r p) = blank_user"
  "text_html (mk i s r p) = []" "attaches (mk i s r p) = JList []"
  by (simp_all add: mk_def)


section \<open>Properties of the parser\<close>

lemma parse_user_empty: "parse_user (JObj []) = Inr blank_user"
  by (simp add: parse_user_def blank_user_def py_or_def)

lemma parse_comment_all_absent:
  assumes "map_of kvs ''id'' = Some (JInt i)" and "\<forall>k\<in>set optional_keys. map_of kvs k = None"
  shows "parse_comment (JObj kvs) = Inr (mk i 0 0 0)"
  using assms
  by (simp add: parse_comment_def rating_of_def optional_keys_def py_or_def parse_user_empty mk_def)

lemma parse_comment_shape:
  assumes "parse_comment c = Inr cm"
  shows "\<exists>kvs r v u.
     c = JObj kvs \<and> rating_of c = Inr r \<and> py_item c ''id'' = Inr v \<and> py_int v = Inr (id_c cm) \<and>
     parse_user (py_or (case map_of kvs ''user'' of None \<Rightarrow> JNull | Some x \<Rightarrow> x) (JObj [])) = Inr u \<and>
     user cm = u \<and> rating cm = r \<and>
     text_html cm = py_str (py_or (case map_of kvs ''text_template'' of None \<Rightarrow> JNull | Some x \<Rightarrow> x) (JStr [])) \<and>
     created_iso cm = py_str (py_or (case map_of kvs ''data_create'' of None \<Rightarrow> JNull | Some x \<Rightarrow> x) (JStr [])) \<and>
     py_int (case map_of kvs ''sort'' of None \<Rightarrow> JInt 0 | Some x \<Rightarrow> x) = Inr (sort_c cm) \<and>
     edited cm = truthy (case map_of kvs ''edited'' of None \<Rightarrow> JBool False | Some x \<Rightarrow> x) \<and>
     fixed cm = truthy (case map_of kvs ''fixed'' of None \<Rightarrow> JBool False | Some x \<Rightarrow> x) \<and>
     py_int (case map_of kvs ''comment_type'' of None \<Rightarrow> JInt 0 | Some x \<Rightarrow> x) = Inr (comment_type cm) \<and>
     py_int (py_or (case map_of kvs ''answer_comment_root_id'' of None \<Rightarrow> JInt 0 | Some x \<Rightarrow> x) (JInt 0))
       = Inr (answer_comment_root_id cm) \<and>
     attaches cm = py_or (case map_of kvs ''attaches'' of None \<Rightarrow> JNull | Some x \<Rightarrow> x) (JList []) \<and>
     py_int (py_or (case map_of kvs ''answer_comment_count'' of None \<Rightarrow> JInt 0 | Some x \<Rightarrow> x) (JInt 0))
       = Inr (reply_expected cm) \<and>
     parent_id cm = (case com_ans_search (text_html cm) of Some g \<Rightarrow> digits_to_int g | None \<Rightarrow> 0) \<and>
     ava_data_uri (user cm) = []"
proof -
  from assms obtain r where r: "rating_of c = Inr r"
    by (auto simp: parse_comment_def ebind_eq_Inr)
  then obtain kvs where c: "c = JObj kvs"
    by (cases c) (auto simp: rating_of_def)
  have au: "ava_data_uri u = []" if "parse_user x = Inr u" for x u
    using that by (auto simp: parse_user_def ebind_eq_Inr)
  from assms show ?thesis
    unfolding c parse_comment_def
    by (auto simp: ebind_eq_Inr Let_def au)
qed

lemma merge_records_raises:
  "c \<in> set batch \<Longrightarrow> parse_comment c = Inl err \<Longrightarrow> \<exists>err'. merge_records batch acc = Inl err'"
proof (induction batch arbitrary: acc)
  case Nil
  then show ?case by simp
next
  case (Cons x xs)
  obtain sn cms added where acc: "acc = (sn, cms, added)" by (cases acc) auto
  show ?case
  proof (cases "parse_comment x")
    case (Inl e)
    then show ?thesis by (simp add: acc)
  next
    case (Inr cm)
    with Cons.prems have "c \<in> set xs" by auto
    from Cons.IH[OF this Cons.prems(2)] Inr show ?thesis
      by (simp add: acc)
  qed
qed

text \<open>
  C6, as stated, fails on both counts. An optional field of the wrong shape raises
  (\<open>sort\<close> sent as \<open>null\<close>, \<open>user\<close> sent as a string), and a record without
  \<open>id\<close> raises \<open>KeyError\<close> out of the loop that merges the batch: the record after
  it is never parsed.
\<close>

theorem parse_comment_wrong_shape_counterexample:
  "parse_comment (JObj [(''id'', JInt 5), (''sort'', JNull)]) = Inl TypeError \<and>
   parse_comment (JObj [(''id'', JInt 5), (''user'', JStr ''bob'')]) = Inl AttributeError \<and>
   parse_comment (JObj [(''sort'', JInt 3)]) = Inl KeyError \<and>
   merge_records [JObj [(''sort'', JInt 3)], JObj [(''id'', JInt 5)]] ({}, [], 0) = Inl KeyError"
  by code_simp

text \<open>
  C6, amended. On a record whose optional fields are absent \<open>parse_comment\<close> does
  not raise: with an integer \<open>id\<close> and nothing else it returns the comment of that id
  with empty strings, zeros, false flags, an empty attachment list and the default user,
  and whenever it returns, every field whose key is absent has that default. A record
  without \<open>id\<close> raises (\<open>KeyError\<close> when \<open>raiting\<close> and
  \<open>answer_comment_count\<close> are absent too), and an error raised for one record of a
  batch is raised by the merge of the whole batch.
\<close>

theorem parse_comment_absent_fields:
  "(map_of kvs ''id'' = Some (JInt i) \<and> (\<forall>k\<in>set optional_keys. map_of kvs k = None) \<longrightarrow>
      parse_comment (JObj kvs) = Inr (mk i 0 0 0)) \<and>
   (parse_comment (JObj kvs) = Inr cm \<longrightarrow>
      (map_of kvs ''text_template'' = None \<longrightarrow> text_html cm = [] \<and> parent_id cm = 0) \<and>
      (map_of kvs ''data_create'' = None \<longrightarrow> created_iso cm = []) \<and>
      (map_of kvs ''user'' = None \<longrightarrow> user cm = blank_user) \<and>
      (map_of kvs ''raiting'' = None \<longrightarrow> rating cm = 0) \<and>
      (map_of kvs ''sort'' = None \<longrightarrow> sort_c cm = 0) \<and>
      (map_of kvs ''edited'' = None \<longrightarrow> \<not> edited cm) \<and>
      (map_of kvs ''fixed'' = None \<longrightarrow> \<not> fixed cm) \<and>
      (map_of kvs ''comment_type'' = None \<longrightarrow> comment_type cm = 0) \<and>
      (map_of kvs ''answer_comment_root_id'' = None \<longrightarrow> answer_comment_root_id cm = 0) \<and>
      (map_of kvs ''attaches'' = None \<longrightarrow> attaches cm = JList []) \<and>
      (map_of kvs ''answer_comment_count'' = None \<longrightarrow> reply_expected cm = 0)) \<and>
   (map_of bad ''id'' = None \<longrightarrow> (\<exists>err. parse_comment (JObj bad) = Inl err)) \<and>
   (map_of bad ''id'' = None \<and> map_of bad ''raiting'' = None \<and>
    map_of bad ''answer_comment_count'' = None \<longrightarrow> parse_comment (JObj bad) = Inl KeyError) \<and>
   (c \<in> set batch \<and> parse_comment c = Inl err \<longrightarrow> (\<exists>err'. merge_records batch acc = Inl err'))"
proof -
  have c1: "map_of kvs ''id'' = Some (JInt i) \<and> (\<forall>k\<in>set optional_keys. map_of kvs k = None) \<longrightarrow>
      parse_comment (JObj kvs) = Inr (mk i 0 0 0)"
    by (simp add: parse_comment_all_absent)
  have c3: "map_of bad ''id'' = None \<longrightarrow> (\<exists>err. parse_comment (JObj bad) = Inl err)"
  proof
    assume "map_of bad ''id'' = None"
    then have "parse_comment (JObj bad) \<noteq> Inr x" for x
      using parse_comment_shape[of "JObj bad" x] by auto
    then show "\<exists>err. parse_comment (JObj bad) = Inl err"
      by (cases "parse_comment (JObj bad)") auto
  qed
  have c4: "map_of bad ''id'' = None \<and> map_of bad ''raiting'' = None \<and>
    map_of bad ''answer_comment_count'' = None \<longrightarrow> parse_comment (JObj bad) = Inl KeyError"
    by (simp add: parse_comment_def rating_of_def py_or_def)
  have c5: "c \<in> set batch \<and> parse_comment c = Inl err \<longrightarrow> (\<exists>err'. merge_records batch acc = Inl err')"
    using merge_records_raises by blast
  have c2: "parse_comment (JObj kvs) = Inr cm \<longrightarrow>
      (map_of kvs ''text_template'' = None \<longrightarrow> text_html cm = [] \<and> parent_id cm = 0) \<and>
      (map_of kvs ''data_create'' = None \<longrightarrow> created_iso cm = []) \<and>
      (map_of kvs ''user'' = None \<longrightarrow> user cm = blank_user) \<and>
      (map_of kvs ''raiting'' = None \<longrightarrow> rating cm = 0) \<and>
      (map_of kvs ''sort'' = None \<longrightarrow> sort_c cm = 0) \<and>
      (map_of kvs ''edited'' = None \<longrightarrow> \<not> edited cm) \<and>
      (map_of kvs ''fixed'' = None \<longrightarrow> \<not> fixed cm) \<and>
      (map_of kvs ''comment_type'' = None \<longrightarrow> comment_type cm = 0) \<and>
      (map_of kvs ''answer_comment_root_id'' = None \<longrightarrow> answer_comment_root_id cm = 0) \<and>
      (map_of kvs ''attaches'' = None \<longrightarrow> attaches cm = JList []) \<and>
      (map_of kvs ''answer_comment_count'' = None \<longrightarrow> reply_expected cm = 0)"
  proof
    assume p: "parse_comment (JObj kvs) = Inr cm"
    from parse_comment_shape[OF p] obtain r v u where s:
      "rating_of (JObj kvs) = Inr r"
      "parse_user (py_or (case map_of kvs ''user'' of None \<Rightarrow> JNull | Some x \<Rightarrow> x) (JObj [])) = Inr u"
      "user cm = u" "rating cm = r"
      "text_html cm = py_str (py_or (case map_of kvs ''text_template'' of None \<Rightarrow> JNull | Some x \<Rightarrow> x) (JStr []))"
      "created_iso cm = py_str (py_or (case map_of kvs ''data_create'' of None \<Rightarrow> JNull | Some x \<Rightarrow> x) (JStr []))"
      "py_int (case map_of kvs ''sort'' of None \<Rightarrow> JInt 0 | Some x \<Rightarrow> x) = Inr (sort_c cm)"
      "edited cm = truthy (case map_of kvs ''edited'' of None \<Rightarrow> JBool False | Some x \<Rightarrow> x)"
      "fixed cm = truthy (case map_of kvs ''fixed'' of None \<Rightarrow> JBool False | Some x \<Rightarrow> x)"
      "py_int (case map_of kvs ''comment_type'' of None \<Rightarrow> JInt 0 | Some x \<Rightarrow> x) = Inr (comment_type cm)"
      "py_int (py_or (case map_of kvs ''answer_comment_root_id'' of None \<Rightarrow> JInt 0 | Some x \<Rightarrow> x) (JInt 0))
         = Inr (answer_comment_root_id cm)"
      "attaches cm = py_or (case map_of kvs ''attaches'' of None \<Rightarrow> JNull | Some x \<Rightarrow> x) (JList [])"
      "py_int (py_or (case map_of kvs ''answer_comment_count'' of None \<Rightarrow> JInt 0 | Some x \<Rightarrow> x) (JInt 0))
         = Inr (reply_expected cm)"
      "parent_id cm = (case com_ans_search (text_html cm) of Some g \<Rightarrow> digits_to_int g | None \<Rightarrow> 0)"
      by auto
    have "map_of kvs ''text_template'' = None \<longrightarrow> text_html cm = [] \<and> parent_id cm = 0"
      using s(5,14) by (simp add: py_or_def)
    moreover have "map_of kvs ''data_create'' = None \<longrightarrow> created_iso cm = []"
      using s(6) by (simp add: py_or_def)
    moreover have "map_of kvs ''user'' = None \<longrightarrow> user cm = blank_user"
      using s(2,3) by (auto simp: py_or_def parse_user_empty)
    moreover have "map_of kvs ''raiting'' = None \<longrightarrow> rating cm = 0"
      using s(1,4) by (auto simp: rating_of_def)
    moreover have "map_of kvs ''sort'' = None \<longrightarrow> sort_c cm = 0"
      using s(7) by auto
    moreover have "map_of kvs ''edited'' = None \<longrightarrow> \<not> edited cm"
      using s(8) by auto
    moreover have "map_of kvs ''fixed'' = None \<longrightarrow> \<not> fixed cm"
      using s(9) by auto
    moreover have "map_of kvs ''comment_type'' = None \<longrightarrow> comment_type cm = 0"
      using s(10) by auto
    moreover have "map_of kvs ''answer_comment_root_id'' = None \<longrightarrow> answer_comment_root_id cm = 0"
      using s(11) by (auto simp: py_or_def)
    moreover have "map_of kvs ''attaches'' = None \<longrightarrow> attaches cm = JList []"
      using s(12) by (auto simp: py_or_def)
    moreover have "map_of kvs ''answer_comment_count'' = None \<longrightarrow> reply_expected cm = 0"
      using s(13) by (auto simp: py_or_def)
    ultimately show "(map_of kvs ''text_template'' = None \<longrightarrow> text_html cm = [] \<and> parent_id cm = 0) \<and>
      (map_of kvs ''data_create'' = None \<longrightarrow> created_iso cm = []) \<and>
      (map_of kvs ''user'' = None \<longrightarrow> user cm = blank_user) \<and>
      (map_of kvs ''raiting'' = None \<longrightarrow> rating cm = 0) \<and>
      (map_of kvs ''sort'' = None \<longrightarrow> sort_c cm = 0) \<and>
      (map_of kvs ''edited'' = None \<longrightarrow> \<not> edited cm) \<and>
      (map_of kvs ''fixed'' = None \<longrightarrow> \<not> fixed cm) \<and>
      (map_of kvs ''comment_type'' = None \<longrightarrow> comment_type cm = 0) \<and>
      (map_of kvs ''answer_comment_root_id'' = None \<longrightarrow> answer_comment_root_id cm = 0) \<and>
      (map_of kvs ''attaches'' = None \<longrightarrow> attaches cm = JList []) \<and>
      (map_of kvs ''answer_comment_count'' = None \<longrightarrow> reply_expected cm = 0)"
      by (intro conjI)
  qed
  show ?thesis
    by (intro conjI) (fact c1 c2 c3 c4 c5)+
qed

theorem parse_comment_absent_fields_witness:
  "parse_comment (JObj [(''id'', JInt 5)]) = Inr (mk 5 0 0 0) \<and>
   parse_comment (JObj []) = Inl KeyError \<and>
   (\<exists>err'. merge_records [JObj [(''id'', JInt 5)], JObj []] ({}, [], 0) = Inl err')"
proof -
  have h: "map_of [(''id'', JInt 5)] ''id'' = Some (JInt 5)"
    "\<forall>k\<in>set optional_keys. map_of [(''id'', JInt 5)] k = None"
    "map_of ([] :: (string \<times> json) list) ''id'' = None"
    "map_of ([] :: (string \<times> json) list) ''raiting'' = None"
    "map_of ([] :: (string \<times> json) list) ''answer_comment_count'' = None"
    "JObj [] \<in> set [JObj [(''id'', JInt 5)], JObj []]"
    by (simp_all add: optional_keys_def)
  from parse_comment_absent_fields[of "[(''id'', JInt 5)]" 5 "mk 5 0 0 0" "[]" "JObj []"
      "[JObj [(''id'', JInt 5)], JObj []]" KeyError "({}, [], 0)"] h
  show ?thesis by blast
qed

section \<open>Properties of the binary fetcher\<close>

lemma fetch_loop_result:
  "fetch_loop e url n d w = (r, w') \<Longrightarrow>
   \<exists>k\<le>n. gets w' = gets w @ replicate k url \<and>
     (\<forall>i<(case r of None \<Rightarrow> k | Some _ \<Rightarrow> k - 1).
         attempt e (gets w @ replicate i url) url = None) \<and>
     sleeps w' = sleeps w @ map (\<lambda>i. d * 2 ^ i) [0..<(case r of None \<Rightarrow> k | Some _ \<Rightarrow> k - 1)] \<and>
     (case r of None \<Rightarrow> k = n
      | Some x \<Rightarrow> 0 < k \<and> attempt e (gets w @ replicate (k - 1) url) url = Some x)"
proof (induction n arbitrary: d w)
  case 0
  then show ?case by auto
next
  case (Suc n)
  show ?case
  proof (cases "attempt e (gets w) url")
    case (Some x)
    with Suc.prems have "r = Some x" "w' = w\<lparr>gets := gets w @ [url]\<rparr>" by auto
    then show ?thesis using Some by (intro exI[of _ 1]) auto
  next
    case None
    let ?w1 = "w\<lparr>gets := gets w @ [url], sleeps := sleeps w @ [d]\<rparr>"
    from None Suc.prems have "fetch_loop e url n (d * 2) ?w1 = (r, w')" by simp
    from Suc.IH[OF this] obtain k where k: "k \<le> n"
      "gets w' = gets ?w1 @ replicate k url"
      "\<forall>i<(case r of None \<Rightarrow> k | Some _ \<Rightarrow> k - 1).
         attempt e (gets ?w1 @ replicate i url) url = None"
      "sleeps w' = sleeps ?w1 @ map (\<lambda>i. d * 2 * 2 ^ i) [0..<(case r of None \<Rightarrow> k | Some _ \<Rightarrow> k - 1)]"
      "(case r of None \<Rightarrow> k = n
      | Some x \<Rightarrow> 0 < k \<and> attempt e (gets ?w1 @ replicate (k - 1) url) url = Some x)"
      by blast
    show ?thesis
    proof (intro exI[of _ "Suc k"] conjI)
      show "Suc k \<le> Suc n" using k(1) by simp
      show "gets w' = gets w @ replicate (Suc k) url" using k(2) by (simp add: replicate_app_Cons_same)
      show "\<forall>i<(case r of None \<Rightarrow> Suc k | Some _ \<Rightarrow> Suc k - 1).
         attempt e (gets w @ replicate i url) url = None"
      proof (intro allI impI)
        fix i assume i: "i < (case r of None \<Rightarrow> Suc k | Some _ \<Rightarrow> Suc k - 1)"
        show "attempt e (gets w @ replicate i url) url = None"
        proof (cases i)
          case 0 then show ?thesis using None by simp
        next
          case (Suc j)
          with i k(5) have "j < (case r of None \<Rightarrow> k | Some _ \<Rightarrow> k - 1)"
            by (auto split: option.splits)
          with k(3) have "attempt e (gets ?w1 @ replicate j url) url = None" by blast
          then show ?thesis using Suc by (simp add: replicate_app_Cons_same)
        qed
      qed
      show "sleeps w' = sleeps w @ map (\<lambda>i. d * 2 ^ i) [0..<(case r of None \<Rightarrow> Suc k | Some _ \<Rightarrow> Suc k - 1)]"
      proof -
        let ?m = "(case r of None \<Rightarrow> k | Some _ \<Rightarrow> k - 1)"
        have m: "(case r of None \<Rightarrow> Suc k | Some _ \<Rightarrow> Suc k - 1) = Suc ?m"
          using k(5) by (auto split: option.splits)
        have "map (\<lambda>i. d * 2 ^ i) [0..<Suc ?m] = d # map (\<lambda>i. d * 2 * 2 ^ i) [0..<?m]"
          by (simp add: upt_conv_Cons map_Suc_upt[symmetric] del: upt_Suc)
        then show ?thesis using k(4) m by simp
      qed
      show "case r of None \<Rightarrow> Suc k = Suc n
         | Some x \<Rightarrow> 0 < Suc k \<and> attempt e (gets w @ replicate (Suc k - 1) url) url = Some x"
        using k(5) by (cases r) (auto simp: replicate_app_Cons_same gr0_conv_Suc)
    qed
  qed
qed


text \<open>
  C8. \<open>url_to_data_uri\<close> issues at most \<open>max_retries\<close> GETs (3 by default), all for
  the same URL. Every failed attempt (a transport exception, a status other than 200 or
  an empty body) is followed by a sleep, the delays being 1/4 s, 1/2 s, 1 s, ... . The
  first successful attempt ends the loop with the data URI built from the media type of
  the response (\<open>application/octet-stream\<close> when the header is absent or empty) and
  the base64 text of its body; when every attempt failed the result is \<open>None\<close>. The
  function returns a value in every case.
\<close>

theorem url_to_data_uri_retries:
  assumes "url_to_data_uri e url m w = (r, w')"
  shows "\<exists>k failed. k \<le> nat m \<and> failed = (case r of None \<Rightarrow> k | Some _ \<Rightarrow> k - 1) \<and>
     gets w' = gets w @ replicate k url \<and>
     (\<forall>i<failed. attempt e (gets w @ replicate i url) url = None) \<and>
     sleeps w' = sleeps w @ map (\<lambda>i. (1 / 4) * 2 ^ i) [0..<failed] \<and>
     (case r of
        None \<Rightarrow> k = nat m
      | Some x \<Rightarrow> 0 < k \<and>
          (\<exists>resp. http_get e (gets w @ replicate (k - 1) url) url = Inr resp \<and>
             status_code resp = 200 \<and> content resp \<noteq> [] \<and>
             x = ''data:'' @ ctype_of resp @ '';base64,'' @ b64encode (content resp) \<and>
             (content_type resp \<in> {None, Some []} \<longrightarrow>
                ctype_of resp = ''application/octet-stream'')))"
proof -
  from assms have "fetch_loop e url (nat m) (1 / 4) w = (r, w')"
    by (simp add: url_to_data_uri_def)
  from fetch_loop_result[OF this] obtain k where k: "k \<le> nat m"
    "gets w' = gets w @ replicate k url"
    "\<forall>i<(case r of None \<Rightarrow> k | Some _ \<Rightarrow> k - 1). attempt e (gets w @ replicate i url) url = None"
    "sleeps w' = sleeps w @ map (\<lambda>i. (1 / 4) * 2 ^ i) [0..<(case r of None \<Rightarrow> k | Some _ \<Rightarrow> k - 1)]"
    "(case r of None \<Rightarrow> k = nat m
      | Some x \<Rightarrow> 0 < k \<and> attempt e (gets w @ replicate (k - 1) url) url = Some x)"
    by blast
  have last: "(case r of
        None \<Rightarrow> k = nat m
      | Some x \<Rightarrow> 0 < k \<and>
          (\<exists>resp. http_get e (gets w @ replicate (k - 1) url) url = Inr resp \<and>
             status_code resp = 200 \<and> content resp \<noteq> [] \<and>
             x = ''data:'' @ ctype_of resp @ '';base64,'' @ b64encode (content resp) \<and>
             (content_type resp \<in> {None, Some []} \<longrightarrow>
                ctype_of resp = ''application/octet-stream'')))"
  proof (cases r)
    case None
    then show ?thesis using k(5) by simp
  next
    case (Some x)
    with k(5) have pos: "0 < k" and a: "attempt e (gets w @ replicate (k - 1) url) url = Some x"
      by auto
    from a obtain resp where resp: "http_get e (gets w @ replicate (k - 1) url) url = Inr resp"
      "status_code resp = 200" "content resp \<noteq> []" "x = data_uri resp"
      by (auto simp: attempt_def split: sum.splits if_splits)
    have "content_type resp \<in> {None, Some []} \<longrightarrow> ctype_of resp = ''application/octet-stream''"
      by (auto simp: ctype_of_def strip_def)
    with resp pos Some show ?thesis by (auto simp: data_uri_def)
  qed
  show ?thesis
    using k(1-4) last by blast
qed



theorem url_to_data_uri_retries_witness:
  "url_to_data_uri flaky_env ''u'' 3 \<lparr>calls = [], gets = [], sleeps = []\<rparr> =
     (Some ''data:image/png;base64,TWFu'',
      \<lparr>calls = [], gets = [''u'', ''u'', ''u''], sleeps = [1 / 4, 1 / 2]\<rparr>) \<and>
   (\<exists>k. k \<le> (3::nat) \<and> [''u'', ''u'', ''u''] = replicate k ''u'')"
proof -
  have run: "url_to_data_uri flaky_env ''u'' 3 \<lparr>calls = [], gets = [], sleeps = []\<rparr> =
     (Some ''data:image/png;base64,TWFu'',
      \<lparr>calls = [], gets = [''u'', ''u'', ''u''], sleeps = [1 / 4, 1 / 2]\<rparr>)"
    by code_simp
  from url_to_data_uri_retries[OF run] obtain k where "k \<le> nat 3"
    "gets \<lparr>calls = [], gets = [''u'', ''u'', ''u''], sleeps = [1 / 4, 1 / 2 :: rat]\<rparr> =
       gets \<lparr>calls = [], gets = [], sleeps = []\<rparr> @ replicate k ''u''"
    by blast
  then have "k \<le> (3::nat) \<and> [''u'', ''u'', ''u''] = replicate k ''u''" by simp
  then show ?thesis using run by blast
qed

section \<open>Properties of the tree assembly\<close>

lemma children_map_snoc:
  "children_map (cms @ [c]) =
     (if answer_comment_root_id c = 0 then children_map cms
      else (children_map cms)(parent_id c \<mapsto>
             (case children_map cms (parent_id c) of None \<Rightarrow> [] | Some ks \<Rightarrow> ks) @ [c]))"
  by (simp add: children_map_def)

lemma children_map_lookup:
  "(case children_map cms n of None \<Rightarrow> [] | Some ks \<Rightarrow> ks) = replies_to cms n"
proof (induction cms rule: rev_induct)
  case Nil
  show ?case by (simp add: children_map_def replies_to_def)
next
  case (snoc c cms)
  then show ?case
    by (auto simp: children_map_snoc replies_to_def)
qed

lemma same_ties_sort_key: "same_ties xs (sort_key sort_c xs)"
  by (simp add: same_ties_def list_all_iff sort_key_stable)

lemma ascending_stable_py_sorted: "ascending_stable xs (py_sorted sort_c xs)"
  by (simp add: ascending_stable_def py_sorted_def same_ties_sort_key sorted_sort_key)

lemma descending_stable_py_sorted_reverse: "descending_stable xs (py_sorted_reverse sort_c xs)"
proof -
  have "filter (\<lambda>c. sort_c c = k) (rev (sort_key sort_c (rev xs))) = filter (\<lambda>c. sort_c c = k) xs"
    for k
    by (simp add: rev_filter[symmetric] sort_key_stable)
  moreover have "sorted (rev (map sort_c (rev (sort_key sort_c (rev xs)))))"
    by (simp add: rev_map)
  ultimately show ?thesis
    by (simp add: descending_stable_def same_ties_def py_sorted_reverse_def list_all_iff)
qed

lemma those_map_Some:
  assumes "those (map g xs) = Some ys"
  shows "length ys = length xs" and "\<And>i. i < length xs \<Longrightarrow> g (xs ! i) = Some (ys ! i)"
proof -
  from assms have eq: "map g xs = map Some ys" by (simp add: those_eq_Some)
  from arg_cong[OF eq, of length] show len: "length ys = length xs" by simp
  fix i assume i: "i < length xs"
  from arg_cong[OF eq, of "\<lambda>l. l ! i"] i len show "g (xs ! i) = Some (ys ! i)" by simp
qed

lemma render_reply_tree_Suc:
  "render_reply_tree (Suc depth) n (children_map cms) imgs =
     (if replies_to cms n = [] then Some []
      else those (map (\<lambda>rc. map_option (RNode rc (imgs_get imgs (id_c rc)))
                              (render_reply_tree depth (id_c rc) (children_map cms) imgs))
                   (py_sorted sort_c (replies_to cms n))))"
  by (simp only: render_reply_tree.simps Let_def children_map_lookup)

lemma render_reply_tree_ordered:
  "render_reply_tree depth n (children_map cms) imgs = Some nodes \<Longrightarrow>
   map node_comment nodes = py_sorted sort_c (replies_to cms n) \<and>
   list_all (replies_ordered cms) nodes"
proof (induction depth arbitrary: n nodes)
  case 0
  then show ?case by simp
next
  case (Suc depth)
  let ?kids = "replies_to cms n"
  let ?sk = "py_sorted sort_c ?kids"
  show ?case
  proof (cases "?kids = []")
    case True
    with Suc.prems have "nodes = []"
      by (simp add: render_reply_tree_Suc del: render_reply_tree.simps)
    with True show ?thesis by (simp add: py_sorted_def)
  next
    case False
    let ?g = "\<lambda>rc. map_option (RNode rc (imgs_get imgs (id_c rc)))
                 (render_reply_tree depth (id_c rc) (children_map cms) imgs)"
    from Suc.prems False have th: "those (map ?g ?sk) = Some nodes"
      by (simp add: render_reply_tree_Suc del: render_reply_tree.simps)
    note len = those_map_Some(1)[OF th]
    note each = those_map_Some(2)[OF th]
    have nc: "node_comment (nodes ! i) = ?sk ! i \<and> replies_ordered cms (nodes ! i)"
      if i: "i < length ?sk" for i
    proof -
      from each[OF i] obtain sub where
        sub: "render_reply_tree depth (id_c (?sk ! i)) (children_map cms) imgs = Some sub"
        and node: "nodes ! i = RNode (?sk ! i) (imgs_get imgs (id_c (?sk ! i))) sub"
        by (cases "render_reply_tree depth (id_c (?sk ! i)) (children_map cms) imgs") simp_all
      from Suc.IH[OF sub] have
        "map node_comment sub = py_sorted sort_c (replies_to cms (id_c (?sk ! i)))"
        "list_all (replies_ordered cms) sub" by blast+
      then show ?thesis
        unfolding node by (simp add: ascending_stable_py_sorted)
    qed
    have "map node_comment nodes = ?sk"
    proof (rule nth_equalityI)
      show "length (map node_comment nodes) = length ?sk" using len by simp
      fix i assume "i < length (map node_comment nodes)"
      then have i: "i < length ?sk" using len by simp
      then show "map node_comment nodes ! i = ?sk ! i" using nc[OF i] len by simp
    qed
    moreover have "list_all (replies_ordered cms) nodes"
      unfolding list_all_length using nc len by simp
    ultimately show ?thesis by simp
  qed
qed

lemma render_reply_tree_None_chain:
  "render_reply_tree depth n (children_map cms) imgs = None \<Longrightarrow>
   \<exists>cs. length cs = depth \<and> chain cms n cs"
proof (induction depth arbitrary: n)
  case 0
  show ?case by simp
next
  case (Suc depth)
  let ?kids = "replies_to cms n"
  let ?g = "\<lambda>rc. map_option (RNode rc (imgs_get imgs (id_c rc)))
                 (render_reply_tree depth (id_c rc) (children_map cms) imgs)"
  have ne: "?kids \<noteq> []"
  proof
    assume "?kids = []"
    with Suc.prems show False by (simp add: render_reply_tree_Suc del: render_reply_tree.simps)
  qed
  with Suc.prems have "those (map ?g (py_sorted sort_c ?kids)) = None"
    by (simp add: render_reply_tree_Suc del: render_reply_tree.simps)
  then have "None \<in> set (map ?g (py_sorted sort_c ?kids))"
    by (simp only: those_eq_None)
  then obtain rc where rc: "rc \<in> set ?kids" "?g rc = None"
    by (auto simp: py_sorted_def)
  then have rn: "render_reply_tree depth (id_c rc) (children_map cms) imgs = None"
    by simp
  from Suc.IH[OF rn] obtain cs where cs: "length cs = depth" "chain cms (id_c rc) cs"
    by blast
  from rc(1) have "chain cms n (rc # cs)"
    using cs(2) by (simp add: replies_to_def)
  then show ?case using cs(1) by (intro exI[of _ "rc # cs"]) simp
qed

lemma chain_members:
  "chain cms n cs \<Longrightarrow> c \<in> set cs \<Longrightarrow> c \<in> set cms \<and> answer_comment_root_id c \<noteq> 0"
  by (induction cs arbitrary: n) auto

lemma chain_parent:
  "chain cms n cs \<Longrightarrow> c \<in> set cs \<Longrightarrow> parent_id c = n \<or> parent_id c \<in> id_c ` set cs"
  by (induction cs arbitrary: n) auto

lemma chain_distinct:
  assumes inj: "inj_on id_c (set cms)"
  shows "chain cms n cs \<Longrightarrow> n \<notin> id_c ` set cs \<Longrightarrow> distinct cs"
proof (induction cs arbitrary: n)
  case Nil
  show ?case by simp
next
  case (Cons c cs)
  from Cons.prems have c: "c \<in> set cms" "parent_id c = n" and ch: "chain cms (id_c c) cs"
    and n: "n \<noteq> id_c c" "n \<notin> id_c ` set cs"
    by auto
  have fresh: "id_c c \<notin> id_c ` set cs"
  proof
    assume "id_c c \<in> id_c ` set cs"
    then obtain c' where c': "c' \<in> set cs" "id_c c' = id_c c" by auto
    with chain_members[OF ch] have "c' \<in> set cms" by blast
    with inj c(1) c'(2) have "c' = c" by (auto dest: inj_onD)
    with chain_parent[OF ch c'(1)] c(2) n show False by auto
  qed
  from Cons.IH[OF ch fresh] fresh show ?case by auto
qed

lemma chain_from_root_short:
  assumes d: "distinct (map id_c cms)" and r: "r \<in> set cms" "answer_comment_root_id r = 0"
    and ch: "chain cms (id_c r) cs"
  shows "length cs < length cms"
proof -
  from d have inj: "inj_on id_c (set cms)" by (simp add: distinct_map)
  have nr: "id_c r \<notin> id_c ` set cs"
  proof
    assume "id_c r \<in> id_c ` set cs"
    then obtain c where c: "c \<in> set cs" "id_c c = id_c r" by auto
    with chain_members[OF ch] have "c \<in> set cms" "answer_comment_root_id c \<noteq> 0" by auto
    with inj r c(2) show False by (auto dest: inj_onD)
  qed
  from chain_distinct[OF inj ch nr] have dc: "distinct cs" .
  have "set cs \<subseteq> set cms - {r}"
    using chain_members[OF ch] r(2) by auto
  then have "card (set cs) \<le> card (set cms - {r})"
    by (intro card_mono) auto
  also have "\<dots> < card (set cms)"
    using r(1) by (intro card_Diff1_less) auto
  also have "\<dots> \<le> length cms" by (rule card_length)
  finally show ?thesis using dc by (simp add: distinct_card)
qed

lemma reconcile_ids [simp]: "map id_c (reconcile cms) = map id_c cms"
  by (simp add: reconcile_def comp_def)

lemma length_reconcile [simp]: "length (reconcile cms) = length cms"
  by (simp add: reconcile_def)

text \<open>
  C4. The cards of the document are the roots in descending order of sort key, and below
  every card and every reply the replies filed under it come in ascending order of sort
  key, at every depth; comments with equal sort keys keep the order in which they were
  collected. For a collection with distinct ids the rendering returns as soon as the
  interpreter allows as many nested calls as there are comments. In the sample, roots
  with sort keys 10, 5, 20, 10 come out as 20, 10, 10, 5 and replies with sort keys
  3, 1, 2 as 1, 2, 3.
\<close>

theorem build_html_order:
  "(\<forall>items. snd (build_html depth cms imgs) = Some items \<longrightarrow>
      descending_stable (roots_of (reconcile cms)) (map node_comment items) \<and>
      list_all (replies_ordered (reconcile cms)) items) \<and>
   (distinct (map id_c cms) \<and> length cms \<le> depth \<longrightarrow>
      (\<exists>items. snd (build_html depth cms imgs) = Some items))"
proof (intro conjI allI impI)
  let ?cms = "reconcile cms"
  let ?rs = "py_sorted_reverse sort_c (roots_of ?cms)"
  let ?g = "\<lambda>r. render_root depth r (children_map ?cms) imgs"
  have bh: "snd (build_html depth cms imgs) = those (map ?g ?rs)"
    by (simp add: build_html_def Let_def)
  {
    fix items
    assume "snd (build_html depth cms imgs) = Some items"
    with bh have th: "those (map ?g ?rs) = Some items" by simp
    note len = those_map_Some(1)[OF th]
    note each = those_map_Some(2)[OF th]
    have nc: "node_comment (items ! i) = ?rs ! i \<and> replies_ordered ?cms (items ! i)"
      if i: "i < length ?rs" for i
    proof -
      from each[OF i] obtain sub where
        sub: "render_reply_tree depth (id_c (?rs ! i)) (children_map ?cms) imgs = Some sub"
        and node: "items ! i = RNode (?rs ! i) (imgs_get imgs (id_c (?rs ! i))) sub"
        unfolding render_root_def
        by (cases "render_reply_tree depth (id_c (?rs ! i)) (children_map ?cms) imgs") simp_all
      from render_reply_tree_ordered[OF sub] show ?thesis
        unfolding node by (simp add: ascending_stable_py_sorted)
    qed
    have "map node_comment items = ?rs"
    proof (rule nth_equalityI)
      show "length (map node_comment items) = length ?rs" using len by simp
      fix i assume "i < length (map node_comment items)"
      then have i: "i < length ?rs" using len by simp
      then show "map node_comment items ! i = ?rs ! i" using nc[OF i] len by simp
    qed
    then show "descending_stable (roots_of ?cms) (map node_comment items)"
      by (simp add: descending_stable_py_sorted_reverse)
    show "list_all (replies_ordered ?cms) items"
      unfolding list_all_length using nc len by simp
  }
  assume a: "distinct (map id_c cms) \<and> length cms \<le> depth"
  have "None \<notin> set (map ?g ?rs)"
  proof
    assume "None \<in> set (map ?g ?rs)"
    then obtain r where r: "r \<in> set (roots_of ?cms)" "?g r = None"
      by (auto simp: py_sorted_reverse_def)
    then have rn: "render_reply_tree depth (id_c r) (children_map ?cms) imgs = None"
      by (simp add: render_root_def)
    from render_reply_tree_None_chain[OF rn] obtain cs where
      cs: "length cs = depth" "chain ?cms (id_c r) cs" by blast
    from r(1) have r': "r \<in> set ?cms" "answer_comment_root_id r = 0"
      by (auto simp: roots_of_def)
    from a have "distinct (map id_c ?cms)" by simp
    from chain_from_root_short[OF this r' cs(2)] cs(1) a show False by simp
  qed
  then obtain items where "those (map ?g ?rs) = Some items"
    by (cases "those (map ?g ?rs)") (auto simp: those_eq_None)
  with bh show "\<exists>items. snd (build_html depth cms imgs) = Some items" by simp
qed

theorem build_html_order_witness:
  "distinct (map id_c sample_forum) \<and> length sample_forum \<le> 9 \<and>
   snd (build_html 9 sample_forum []) = Some sample_tree \<and>
   descending_stable (roots_of (reconcile sample_forum)) (map node_comment sample_tree) \<and>
   list_all (replies_ordered (reconcile sample_forum)) sample_tree \<and>
   map (\<lambda>n. sort_c (node_comment n)) sample_tree = [20, 10, 10, 5] \<and>
   map (\<lambda>n. id_c (node_comment n)) sample_tree = [3, 1, 4, 2]"
proof -
  have run: "snd (build_html 9 sample_forum []) = Some sample_tree"
    by code_simp
  have d: "distinct (map id_c sample_forum)" "length sample_forum \<le> 9"
    by (simp_all add: sample_forum_def mk_def)
  have k: "map (\<lambda>n. sort_c (node_comment n)) sample_tree = [20, 10, 10, 5]"
    "map (\<lambda>n. id_c (node_comment n)) sample_tree = [3, 1, 4, 2]"
    by (simp_all add: sample_tree_def mk_def)
  from build_html_order[of 9 sample_forum "[]"] run d k show ?thesis
    by blast
qed

text \<open>
  C9, as stated, fails: the inferred parent of a reply need not lead back to the root of
  its own thread. In \<open>cross_thread\<close> the reply 3 of thread 1 keeps the parent 5 that
  its markup names, and 5 is a reply of thread 4.
\<close>

theorem resolves_to_root_counterexample:
  "answer_comment_root_id (reconcile cross_thread ! 3) = 1 \<and>
   parent_id (reconcile cross_thread ! 3) = 5 \<and>
   \<not> resolves_to (length cross_thread) (reconcile cross_thread) 1
        (parent_id (reconcile cross_thread ! 3))"
  by code_simp

text \<open>
  C9, amended. The first loop of \<open>build_html\<close> changes nothing but \<open>parent_id\<close>.
  Afterwards a comment with root id 0 has inferred parent 0, and a comment with a nonzero
  root id keeps the parent found in its markup when that id is nonzero and is the id of a
  collected comment, and gets its root id otherwise; so its inferred parent is nonzero
  and is its root id or the id of a collected comment. Whether that comment belongs to
  the same thread is not checked. A reply to root 42 without a parent reference in its
  markup is parsed with inferred parent 0 and reconciled to 42.
\<close>

theorem reconcile_parents:
  assumes "i < length cms"
  shows "reconcile cms ! i = (cms ! i)\<lparr>parent_id := parent_id (reconcile cms ! i)\<rparr> \<and>
     (answer_comment_root_id (cms ! i) = 0 \<longrightarrow> parent_id (reconcile cms ! i) = 0) \<and>
     (answer_comment_root_id (cms ! i) \<noteq> 0 \<longrightarrow>
        parent_id (reconcile cms ! i) =
          (if parent_id (cms ! i) \<noteq> 0 \<and> parent_id (cms ! i) \<in> id_c ` set cms
           then parent_id (cms ! i) else answer_comment_root_id (cms ! i)) \<and>
        parent_id (reconcile cms ! i) \<noteq> 0 \<and>
        (parent_id (reconcile cms ! i) = answer_comment_root_id (cms ! i) \<or>
         parent_id (reconcile cms ! i) \<in> id_c ` set (reconcile cms)))"
proof -
  have ids: "id_c ` set (reconcile cms) = id_c ` set cms"
    using reconcile_ids[of cms] by (metis set_map)
  show ?thesis
    using assms unfolding ids by (simp add: reconcile_def)
qed

theorem reconcile_parents_witness:
  "parse_comment plain_reply_raw = Inr plain_reply \<and> parent_id plain_reply = 0 \<and>
   answer_comment_root_id plain_reply = 42 \<and>
   parent_id (reconcile [plain_reply] ! 0) = 42"
proof -
  have p: "parse_comment plain_reply_raw = Inr plain_reply"
    by code_simp
  have q: "parent_id plain_reply = 0" "answer_comment_root_id ([plain_reply] ! 0) = 42"
    "parent_id ([plain_reply] ! 0) = 0"
    by (simp_all add: plain_reply_def mk_def)
  from reconcile_parents[of 0 "[plain_reply]"] q have "parent_id (reconcile [plain_reply] ! 0) = 42"
    by simp
  with p q show ?thesis by simp
qed

section \<open>Properties of the collection\<close>

lemma merge_records_seen:
  "parse_comment c = Inr cm \<Longrightarrow> id_c cm \<in> sn \<Longrightarrow>
   merge_records (c # cs) (sn, cms, added) = merge_records cs (sn, cms, added)"
  by simp

lemma merge_records_result:
  "merge_records raw (sn, cms, added) = Inr (sn', cms', added') \<Longrightarrow>
   \<exists>new. cms' = cms @ new \<and> sn' = sn \<union> id_c ` set new \<and> added' = added + int (length new) \<and>
     distinct (map id_c new) \<and> id_c ` set new \<inter> sn = {} \<and>
     (\<forall>cm\<in>set new. \<exists>c\<in>set raw. parse_comment c = Inr cm)"
proof (induction raw arbitrary: sn cms added)
  case Nil
  then show ?case by simp
next
  case (Cons c cs)
  from Cons.prems obtain cm where p: "parse_comment c = Inr cm"
    by (cases "parse_comment c") auto
  show ?case
  proof (cases "id_c cm \<in> sn")
    case True
    with Cons.prems p have "merge_records cs (sn, cms, added) = Inr (sn', cms', added')"
      by simp
    from Cons.IH[OF this] show ?thesis by auto
  next
    case False
    with Cons.prems p have
      "merge_records cs (insert (id_c cm) sn, cms @ [cm], added + 1) = Inr (sn', cms', added')"
      by simp
    from Cons.IH[OF this] obtain new where new:
      "cms' = (cms @ [cm]) @ new" "sn' = insert (id_c cm) sn \<union> id_c ` set new"
      "added' = added + 1 + int (length new)" "distinct (map id_c new)"
      "id_c ` set new \<inter> insert (id_c cm) sn = {}"
      "\<forall>x\<in>set new. \<exists>c\<in>set cs. parse_comment c = Inr x"
      by blast
    show ?thesis
    proof (intro exI[of _ "cm # new"] conjI)
      show "cms' = cms @ cm # new" using new(1) by simp
      show "sn' = sn \<union> id_c ` set (cm # new)" using new(2) by auto
      show "added' = added + int (length (cm # new))" using new(3) by simp
      show "distinct (map id_c (cm # new))" using new(4,5) by auto
      show "id_c ` set (cm # new) \<inter> sn = {}" using new(5) False by auto
      show "\<forall>x\<in>set (cm # new). \<exists>c\<in>set (c # cs). parse_comment c = Inr x"
        using new(6) p by auto
    qed
  qed
qed

lemma merge_records_keyed:
  assumes "merge_records raw (sn, cms, added) = Inr (sn', cms', added')"
    and "sn = id_c ` set cms" "distinct (map id_c cms)"
  shows "sn' = id_c ` set cms' \<and> distinct (map id_c cms')"
proof -
  from merge_records_result[OF assms(1)] obtain new where
    "cms' = cms @ new" "sn' = sn \<union> id_c ` set new" "distinct (map id_c new)"
    "id_c ` set new \<inter> sn = {}" by blast
  with assms(2,3) show ?thesis by auto
qed

lemma merge_records_none_added:
  assumes "merge_records raw (sn, cms, 0) = Inr (sn', cms', 0)"
  shows "sn' = sn \<and> cms' = cms"
proof -
  from merge_records_result[OF assms] obtain new where
    "cms' = cms @ new" "sn' = sn \<union> id_c ` set new" "(0::int) = 0 + int (length new)" by blast
  then show ?thesis by simp
qed

lemma merge_records_all_seen:
  "\<forall>c\<in>set raw. \<exists>cm. parse_comment c = Inr cm \<and> id_c cm \<in> sn \<Longrightarrow>
   merge_records raw (sn, cms, added) = Inr (sn, cms, added)"
  by (induction raw) auto

text \<open>What one round of the loop does to the state.\<close>

lemma page_iteration_result:
  assumes "page_iteration e sid h st = Inr fl"
  shows "\<exists>st' new. (fl = Break st' \<or> fl = Continue st') \<and>
     comments st' = comments st @ new \<and> seen st' = seen st \<union> id_c ` set new \<and>
     distinct (map id_c new) \<and> id_c ` set new \<inter> seen st = {} \<and>
     by_root_count st' = by_root_count st \<and> gets (wld st') = gets (wld st) \<and>
     (fl = Continue st' \<longrightarrow> new \<noteq> []) \<and>
     ((pages_done st' = pages_done st \<and> calls (wld st') = calls (wld st) \<and> st' = st \<and>
       fl = Break st') \<or>
      (pages_done st' = pages_done st + 1 \<and>
       calls (wld st') = calls (wld st) @ [Page sid h (current_min_sort (comments st))]))"
proof (cases "current_min_sort (comments st) \<le> 0")
  case True
  with assms have "fl = Break st" by (simp add: page_iteration_def)
  then show ?thesis by (intro exI[of _ st] exI[of _ "[]"]) simp
next
  case False
  let ?rq = "Page sid h (current_min_sort (comments st))"
  let ?st1 = "st\<lparr>pages_done := pages_done st + 1, wld := issue ?rq (wld st)\<rparr>"
  from assms False obtain resp where resp: "get_json e (calls (wld st)) ?rq = Inr resp"
    by (cases "get_json e (calls (wld st)) ?rq") (auto simp: page_iteration_def Let_def)
  from assms False resp obtain new_raw where nr: "raw_comments resp = Inr new_raw"
    by (cases "raw_comments resp") (auto simp: page_iteration_def Let_def)
  show ?thesis
  proof (cases "truthy new_raw")
    case False
    with assms \<open>\<not> current_min_sort (comments st) \<le> 0\<close> resp nr have "fl = Break ?st1"
      by (simp add: page_iteration_def Let_def)
    then show ?thesis
      by (intro exI[of _ ?st1] exI[of _ "[]"]) (simp add: issue_def)
  next
    case True
    with assms \<open>\<not> current_min_sort (comments st) \<le> 0\<close> resp nr obtain items sn cms added where
      it: "py_iter new_raw = Inr items"
      and mr: "merge_records items (seen st, comments st, 0) = Inr (sn, cms, added)"
      and fl: "fl = (if added = 0 then Break (?st1\<lparr>seen := sn, comments := cms\<rparr>)
                    else Continue (?st1\<lparr>seen := sn, comments := cms,
                            wld := sleep (3 / 25) (issue ?rq (wld st))\<rparr>))"
      by (auto simp: page_iteration_def Let_def ebind_eq_Inr split: if_splits)
    from merge_records_result[OF mr] obtain new where new:
      "cms = comments st @ new" "sn = seen st \<union> id_c ` set new" "added = 0 + int (length new)"
      "distinct (map id_c new)" "id_c ` set new \<inter> seen st = {}" by blast
    show ?thesis
    proof (cases "added = 0")
      case True
      with fl new show ?thesis
        by (intro exI[of _ "?st1\<lparr>seen := sn, comments := cms\<rparr>"] exI[of _ new])
          (simp add: issue_def)
    next
      case False
      with fl new show ?thesis
        by (intro exI[of _ "?st1\<lparr>seen := sn, comments := cms,
                            wld := sleep (3 / 25) (issue ?rq (wld st))\<rparr>"] exI[of _ new])
          (auto simp: issue_def sleep_def)
    qed
  qed
qed

declare paginate.simps [simp del]

lemma paginate_stop: "\<not> pages_done st < mp \<Longrightarrow> paginate e sid h mp st = Inr st"
  by (subst paginate.simps) simp

lemma paginate_raise:
  "pages_done st < mp \<Longrightarrow> page_iteration e sid h st = Inl err \<Longrightarrow> paginate e sid h mp st = Inl err"
  by (subst paginate.simps) simp

lemma paginate_break:
  "pages_done st < mp \<Longrightarrow> page_iteration e sid h st = Inr (Break st') \<Longrightarrow>
   paginate e sid h mp st = Inr st'"
  by (subst paginate.simps) simp

lemma paginate_continue:
  "pages_done st < mp \<Longrightarrow> page_iteration e sid h st = Inr (Continue st') \<Longrightarrow>
   paginate e sid h mp st = paginate e sid h mp st'"
  by (subst paginate.simps) simp

lemma paginate_result:
  "paginate e sid h mp st = Inr st' \<Longrightarrow>
   \<exists>new ps. comments st' = comments st @ new \<and> seen st' = seen st \<union> id_c ` set new \<and>
     distinct (map id_c new) \<and> id_c ` set new \<inter> seen st = {} \<and>
     by_root_count st' = by_root_count st \<and> gets (wld st') = gets (wld st) \<and>
     calls (wld st') = calls (wld st) @ ps \<and> int (length ps) = pages_done st' - pages_done st \<and>
     pages_done st' \<le> max mp (pages_done st)"
proof (induction e sid h mp st rule: paginate.induct)
  case (1 e sid h mp st)
  show ?case
  proof (cases "pages_done st < mp")
    case False
    with "1.prems" have "st' = st" by (simp add: paginate_stop)
    then show ?thesis by (intro exI[of _ "[]"]) simp
  next
    case lt: True
    show ?thesis
    proof (cases "page_iteration e sid h st")
      case (Inl err)
      with lt "1.prems" show ?thesis by (simp add: paginate_raise)
    next
      case (Inr fl)
      from page_iteration_result[OF Inr] obtain st1 new1 where r:
        "fl = Break st1 \<or> fl = Continue st1"
        "comments st1 = comments st @ new1" "seen st1 = seen st \<union> id_c ` set new1"
        "distinct (map id_c new1)" "id_c ` set new1 \<inter> seen st = {}"
        "by_root_count st1 = by_root_count st" "gets (wld st1) = gets (wld st)"
        "(pages_done st1 = pages_done st \<and> calls (wld st1) = calls (wld st) \<and> st1 = st \<and>
           fl = Break st1) \<or>
         (pages_done st1 = pages_done st + 1 \<and>
           calls (wld st1) = calls (wld st) @ [Page sid h (current_min_sort (comments st))])"
        by (elim exE conjE) (rule that; assumption)
      define ps1 where "ps1 = (if pages_done st1 = pages_done st then []
                                else [Page sid h (current_min_sort (comments st))])"
      have ps1: "calls (wld st1) = calls (wld st) @ ps1"
        "int (length ps1) = pages_done st1 - pages_done st" "pages_done st1 \<le> pages_done st + 1"
        using r(8) unfolding ps1_def by auto
      show ?thesis
      proof (cases fl)
        case (Break s)
        with r(1) have fl: "fl = Break st1" by auto
        with lt Inr "1.prems" have "st' = st1" by (simp add: paginate_break)
        have "pages_done st' \<le> max mp (pages_done st)"
          using ps1(3) lt \<open>st' = st1\<close> by simp
        with r(2-7) ps1(1,2) \<open>st' = st1\<close> show ?thesis
          by (intro exI[of _ new1] exI[of _ ps1]) simp
      next
        case (Continue s)
        with r(1) have fl: "fl = Continue st1" by auto
        with lt Inr "1.prems" have rec: "paginate e sid h mp st1 = Inr st'"
          by (simp add: paginate_continue)
        from r(8) fl have pd: "pages_done st1 = pages_done st + 1" by auto
        from "1.IH"[OF lt Inr fl rec] obtain new2 ps2 where n2:
          "comments st' = comments st1 @ new2" "seen st' = seen st1 \<union> id_c ` set new2"
          "distinct (map id_c new2)" "id_c ` set new2 \<inter> seen st1 = {}"
          "by_root_count st' = by_root_count st1" "gets (wld st') = gets (wld st1)"
          "calls (wld st') = calls (wld st1) @ ps2"
          "int (length ps2) = pages_done st' - pages_done st1"
          "pages_done st' \<le> max mp (pages_done st1)"
          by (elim exE conjE) (rule that; assumption)
        show ?thesis
        proof (intro exI[of _ "new1 @ new2"] exI[of _ "ps1 @ ps2"] conjI)
          show "comments st' = comments st @ new1 @ new2" using n2(1) r(2) by simp
          show "seen st' = seen st \<union> id_c ` set (new1 @ new2)" using n2(2) r(3) by auto
          show "distinct (map id_c (new1 @ new2))" using n2(3,4) r(3,4) by auto
          show "id_c ` set (new1 @ new2) \<inter> seen st = {}" using n2(4) r(3,5) by auto
          show "by_root_count st' = by_root_count st" using n2(5) r(6) by simp
          show "gets (wld st') = gets (wld st)" using n2(6) r(7) by simp
          show "calls (wld st') = calls (wld st) @ ps1 @ ps2" using n2(7) ps1(1) by simp
          show "int (length (ps1 @ ps2)) = pages_done st' - pages_done st"
            using n2(8) ps1(2) by simp
          show "pages_done st' \<le> max mp (pages_done st)" using n2(9) pd lt by simp
        qed
      qed
    qed
  qed
qed

lemma page_iteration_raise:
  "0 < current_min_sort (comments st) \<Longrightarrow>
   get_json e (calls (wld st)) (Page sid h (current_min_sort (comments st))) = Inl err \<Longrightarrow>
   page_iteration e sid h st = Inl err"
  by (simp add: page_iteration_def Let_def)

lemma page_iteration_no_anchor:
  "current_min_sort (comments st) \<le> 0 \<Longrightarrow> page_iteration e sid h st = Inr (Break st)"
  by (simp add: page_iteration_def)

lemma page_iteration_empty:
  "0 < current_min_sort (comments st) \<Longrightarrow>
   get_json e (calls (wld st)) (Page sid h (current_min_sort (comments st))) = Inr resp \<Longrightarrow>
   raw_comments resp = Inr nr \<Longrightarrow> \<not> truthy nr \<Longrightarrow>
   page_iteration e sid h st =
     Inr (Break (st\<lparr>pages_done := pages_done st + 1,
                    wld := issue (Page sid h (current_min_sort (comments st))) (wld st)\<rparr>))"
  by (simp add: page_iteration_def Let_def)

lemma page_iteration_nothing_new:
  "0 < current_min_sort (comments st) \<Longrightarrow>
   get_json e (calls (wld st)) (Page sid h (current_min_sort (comments st))) = Inr resp \<Longrightarrow>
   raw_comments resp = Inr nr \<Longrightarrow> truthy nr \<Longrightarrow> py_iter nr = Inr items \<Longrightarrow>
   \<forall>c\<in>set items. \<exists>cm. parse_comment c = Inr cm \<and> id_c cm \<in> seen st \<Longrightarrow>
   page_iteration e sid h st =
     Inr (Break (st\<lparr>pages_done := pages_done st + 1,
                    wld := issue (Page sid h (current_min_sort (comments st))) (wld st)\<rparr>))"
  by (simp add: page_iteration_def Let_def merge_records_all_seen)

text \<open>
  C3. \<open>paginate\<close> is a total function: each round that continues adds one to
  \<open>pages_done\<close>, which the loop test keeps below \<open>max_pages\<close>. The loop returns at
  once when the cap is reached and when the least sort key held is not positive; it
  returns after one more call when that call yields no records, and when every record
  it yields has an id already seen. It issues \<open>pages_done\<close> page calls in all, never
  more than \<open>max_pages\<close>. Against a server that answers every page call with the one
  record already held it returns after at most one call, whatever the cap.
\<close>

theorem paginate_stops:
  "(\<not> pages_done st < mp \<longrightarrow> paginate e sid h mp st = Inr st) \<and>
   (pages_done st < mp \<and> current_min_sort (comments st) \<le> 0 \<longrightarrow>
      paginate e sid h mp st = Inr st) \<and>
   (pages_done st < mp \<and> 0 < current_min_sort (comments st) \<and>
    get_json e (calls (wld st)) (Page sid h (current_min_sort (comments st))) = Inr resp \<and>
    raw_comments resp = Inr nr \<and>
    (\<not> truthy nr \<or>
     (\<exists>items. py_iter nr = Inr items \<and>
        (\<forall>c\<in>set items. \<exists>cm. parse_comment c = Inr cm \<and> id_c cm \<in> seen st))) \<longrightarrow>
      paginate e sid h mp st =
        Inr (st\<lparr>pages_done := pages_done st + 1,
                wld := issue (Page sid h (current_min_sort (comments st))) (wld st)\<rparr>)) \<and>
   (paginate e sid h mp st = Inr st' \<longrightarrow>
      (\<exists>ps. calls (wld st') = calls (wld st) @ ps \<and>
            int (length ps) = pages_done st' - pages_done st) \<and>
      pages_done st' \<le> max mp (pages_done st)) \<and>
   ((\<forall>hist cur. get_json e hist (Page sid h cur) = Inr same) \<and>
    raw_comments same = Inr (JList [r]) \<and> parse_comment r = Inr cm \<and>
    seen st = {id_c cm} \<and> comments st = [cm] \<and> pages_done st = 0 \<longrightarrow>
      (\<exists>st'. paginate e sid h mp st = Inr st' \<and> comments st' = [cm] \<and> pages_done st' \<le> 1))"
proof -
  let ?rq = "Page sid h (current_min_sort (comments st))"
  let ?st1 = "st\<lparr>pages_done := pages_done st + 1, wld := issue ?rq (wld st)\<rparr>"
  have c1: "\<not> pages_done st < mp \<longrightarrow> paginate e sid h mp st = Inr st"
    by (simp add: paginate_stop)
  have c2: "pages_done st < mp \<and> current_min_sort (comments st) \<le> 0 \<longrightarrow>
      paginate e sid h mp st = Inr st"
    by (simp add: paginate_break page_iteration_no_anchor)
  have c3: "pages_done st < mp \<and> 0 < current_min_sort (comments st) \<and>
    get_json e (calls (wld st)) ?rq = Inr resp \<and> raw_comments resp = Inr nr \<and>
    (\<not> truthy nr \<or>
     (\<exists>items. py_iter nr = Inr items \<and>
        (\<forall>c\<in>set items. \<exists>cm. parse_comment c = Inr cm \<and> id_c cm \<in> seen st))) \<longrightarrow>
      paginate e sid h mp st = Inr ?st1"
  proof
    assume a: "pages_done st < mp \<and> 0 < current_min_sort (comments st) \<and>
      get_json e (calls (wld st)) ?rq = Inr resp \<and> raw_comments resp = Inr nr \<and>
      (\<not> truthy nr \<or>
       (\<exists>items. py_iter nr = Inr items \<and>
          (\<forall>c\<in>set items. \<exists>cm. parse_comment c = Inr cm \<and> id_c cm \<in> seen st)))"
    then have b: "pages_done st < mp" "0 < current_min_sort (comments st)"
      "get_json e (calls (wld st)) ?rq = Inr resp" "raw_comments resp = Inr nr"
      by simp_all
    have "page_iteration e sid h st = Inr (Break ?st1)"
    proof (cases "truthy nr")
      case False
      from page_iteration_empty[OF b(2,3,4) False] show ?thesis .
    next
      case True
      with a obtain items where it: "py_iter nr = Inr items"
        "\<forall>c\<in>set items. \<exists>cm. parse_comment c = Inr cm \<and> id_c cm \<in> seen st"
        by auto
      from page_iteration_nothing_new[OF b(2,3,4) True it] show ?thesis .
    qed
    with b(1) show "paginate e sid h mp st = Inr ?st1"
      by (rule paginate_break)
  qed
  have c4: "paginate e sid h mp st = Inr st' \<longrightarrow>
      (\<exists>ps. calls (wld st') = calls (wld st) @ ps \<and>
            int (length ps) = pages_done st' - pages_done st) \<and>
      pages_done st' \<le> max mp (pages_done st)"
  proof
    assume "paginate e sid h mp st = Inr st'"
    from paginate_result[OF this] obtain new ps where
      "calls (wld st') = calls (wld st) @ ps" "int (length ps) = pages_done st' - pages_done st"
      "pages_done st' \<le> max mp (pages_done st)"
      by (elim exE conjE) (rule that; assumption)
    then show "(\<exists>ps. calls (wld st') = calls (wld st) @ ps \<and>
            int (length ps) = pages_done st' - pages_done st) \<and>
      pages_done st' \<le> max mp (pages_done st)"
      by (intro conjI exI[of _ ps])
  qed
  have c5: "(\<forall>hist cur. get_json e hist (Page sid h cur) = Inr same) \<and>
    raw_comments same = Inr (JList [r]) \<and> parse_comment r = Inr cm \<and>
    seen st = {id_c cm} \<and> comments st = [cm] \<and> pages_done st = 0 \<longrightarrow>
      (\<exists>st'. paginate e sid h mp st = Inr st' \<and> comments st' = [cm] \<and> pages_done st' \<le> 1)"
  proof
    assume a: "(\<forall>hist cur. get_json e hist (Page sid h cur) = Inr same) \<and>
      raw_comments same = Inr (JList [r]) \<and> parse_comment r = Inr cm \<and>
      seen st = {id_c cm} \<and> comments st = [cm] \<and> pages_done st = 0"
    then have g: "get_json e (calls (wld st)) ?rq = Inr same" by simp
    from a have rc: "raw_comments same = Inr (JList [r])" by simp
    have seen: "\<forall>c\<in>set [r]. \<exists>cm. parse_comment c = Inr cm \<and> id_c cm \<in> seen st"
      using a by simp
    show "\<exists>st'. paginate e sid h mp st = Inr st' \<and> comments st' = [cm] \<and> pages_done st' \<le> 1"
    proof (cases "pages_done st < mp")
      case False
      then have "paginate e sid h mp st = Inr st" by (rule paginate_stop)
      with a show ?thesis by simp
    next
      case lt: True
      show ?thesis
      proof (cases "0 < current_min_sort (comments st)")
        case False
        then have "page_iteration e sid h st = Inr (Break st)"
          by (simp add: page_iteration_no_anchor)
        with lt have "paginate e sid h mp st = Inr st" by (rule paginate_break)
        with a show ?thesis by simp
      next
        case True
        have "page_iteration e sid h st = Inr (Break ?st1)"
          by (rule page_iteration_nothing_new[OF True g rc _ _ seen]) simp_all
        with lt have "paginate e sid h mp st = Inr ?st1" by (rule paginate_break)
        with a show ?thesis by simp
      qed
    qed
  qed
  show ?thesis
    by (intro conjI) (fact c1 c2 c3 c4 c5)+
qed

theorem paginate_stops_witness:
  "collect_all_comments echo_env 400 idle =
     Inr (\<lparr>title = ''FitGirl Comments'', site_id = 6289, hash = ''null'', total_reported = 0,
           pages = 1\<rparr>,
          [mk 1 5 0 0], [], \<lparr>calls = [First, Page 6289 ''null'' 5], gets = [], sleeps = []\<rparr>) \<and>
   (\<exists>st'. paginate echo_env 6289 ''null'' 400
            \<lparr>seen = {1}, comments = [mk 1 5 0 0], pages_done = 0, by_root_count = Map.empty,
             wld = issue First idle\<rparr> = Inr st' \<and>
          comments st' = [mk 1 5 0 0] \<and> pages_done st' \<le> 1)"
proof -
  let ?st = "\<lparr>seen = {1}, comments = [mk 1 5 0 0], pages_done = 0, by_root_count = Map.empty,
             wld = issue First idle\<rparr>"
  have run: "collect_all_comments echo_env 400 idle =
     Inr (\<lparr>title = ''FitGirl Comments'', site_id = 6289, hash = ''null'', total_reported = 0,
           pages = 1\<rparr>,
          [mk 1 5 0 0], [], \<lparr>calls = [First, Page 6289 ''null'' 5], gets = [], sleeps = []\<rparr>)"
    by code_simp
  have h: "\<forall>hist cur. get_json echo_env hist (Page 6289 ''null'' cur) = Inr (page_of [rec_of 1 5])"
    by (simp add: echo_env_def)
  have r: "raw_comments (page_of [rec_of 1 5]) = Inr (JList [rec_of 1 5])"
    by (simp add: raw_comments_def page_of_def py_or_def)
  have p: "parse_comment (rec_of 1 5) = Inr (mk 1 5 0 0)"
    by code_simp
  have s: "seen ?st = {id_c (mk 1 5 0 0)}" "comments ?st = [mk 1 5 0 0]" "pages_done ?st = 0"
    by simp_all
  from paginate_stops[where st = ?st and mp = 400 and e = echo_env and sid = 6289 and h = "''null''"
      and same = "page_of [rec_of 1 5]" and r = "rec_of 1 5" and cm = "mk 1 5 0 0"]
    h r p s
  have "\<exists>st'. paginate echo_env 6289 ''null'' 400 ?st = Inr st' \<and>
          comments st' = [mk 1 5 0 0] \<and> pages_done st' \<le> 1"
    by blast
  with run show ?thesis by (rule conjI)
qed

text \<open>
  C1, as stated, fails: the page call is not guarded. Against a server whose first page
  holds a record with sort key 5 and whose older-page call fails, \<open>collect_all_comments\<close>
  raises the \<open>RequestException\<close> and returns nothing, and \<open>main\<close> exits with status 1.
\<close>

theorem page_failure_counterexample:
  "collect_all_comments fail_env 400 idle = Inl RequestException \<and>
   main fail_env 1000 ''https://fitgirl-repacks.site/x/'' 400 idle = Exited 1"
  by code_simp

text \<open>
  C1, amended. A transport failure of an older-page call, in whichever round of the loop
  it happens, is raised by \<open>paginate\<close> and by \<open>collect_all_comments\<close>: the comments
  collected so far are not returned. \<open>main\<close> reports the error and exits with
  status 1. Transport failures of thread-completion calls are the ones the engine
  absorbs.
\<close>

theorem page_failure_propagates:
  "(pages_done st < mp \<and> 0 < current_min_sort (comments st) \<and>
    get_json e (calls (wld st)) (Page sid h (current_min_sort (comments st))) = Inl err \<longrightarrow>
      paginate e sid h mp st = Inl err) \<and>
   (pages_done st < mp \<and> page_iteration e sid h st = Inr (Continue st') \<longrightarrow>
      paginate e sid h mp st = paginate e sid h mp st') \<and>
   (initial_batch e w = Inr (m, st0) \<and> paginate e (site_id m) (hash m) mp st0 = Inl err \<longrightarrow>
      collect_all_comments e mp w = Inl err) \<and>
   (collect_all_comments e mp w = Inl RequestException \<and>
    (startswith (strip url) ''http://'' \<or> startswith (strip url) ''https://'') \<longrightarrow>
      main e depth url mp w = Exited 1)"
proof -
  have c1: "pages_done st < mp \<and> 0 < current_min_sort (comments st) \<and>
    get_json e (calls (wld st)) (Page sid h (current_min_sort (comments st))) = Inl err \<longrightarrow>
      paginate e sid h mp st = Inl err"
    by (simp add: paginate_raise page_iteration_raise)
  have c2: "pages_done st < mp \<and> page_iteration e sid h st = Inr (Continue st') \<longrightarrow>
      paginate e sid h mp st = paginate e sid h mp st'"
    by (simp add: paginate_continue)
  have c3: "initial_batch e w = Inr (m, st0) \<and> paginate e (site_id m) (hash m) mp st0 = Inl err \<longrightarrow>
      collect_all_comments e mp w = Inl err"
    by (simp add: collect_all_comments_def)
  have c4: "collect_all_comments e mp w = Inl RequestException \<and>
    (startswith (strip url) ''http://'' \<or> startswith (strip url) ''https://'') \<longrightarrow>
      main e depth url mp w = Exited 1"
    by (auto simp: main_def Let_def)
  show ?thesis
    by (intro conjI) (fact c1 c2 c3 c4)+
qed

theorem page_failure_propagates_witness:
  "initial_batch late_fail_env idle =
     Inr (\<lparr>title = ''FitGirl Comments'', site_id = 6289, hash = ''null'', total_reported = 0,
           pages = 0\<rparr>,
          \<lparr>seen = {1}, comments = [mk 1 5 0 0], pages_done = 0, by_root_count = Map.empty,
           wld = issue First idle\<rparr>) \<and>
   collect_all_comments late_fail_env 400 idle = Inl RequestException \<and>
   main late_fail_env 1000 ''https://fitgirl-repacks.site/x/'' 400 idle = Exited 1"
proof -
  let ?m = "\<lparr>title = ''FitGirl Comments'', site_id = 6289, hash = ''null'', total_reported = 0,
           pages = 0\<rparr>"
  let ?st0 = "\<lparr>seen = {1}, comments = [mk 1 5 0 0], pages_done = 0, by_root_count = Map.empty,
           wld = issue First idle\<rparr>"
  let ?st1 = "\<lparr>seen = {1, 2}, comments = [mk 1 5 0 0, mk 2 3 0 0], pages_done = 1,
           by_root_count = Map.empty,
           wld = sleep (3 / 25) (issue (Page 6289 ''null'' 5) (issue First idle))\<rparr>"
  have p1: "parse_comment (rec_of 1 5) = Inr (mk 1 5 0 0)" by code_simp
  have p2: "parse_comment (rec_of 2 3) = Inr (mk 2 3 0 0)" by code_simp
  have ib: "initial_batch late_fail_env idle = Inr (?m, ?st0)"
    by (simp add: initial_batch_def late_fail_env_def idle_def page_of_def py_or_def p1 issue_def)
  have m0: "current_min_sort [mk 1 5 0 0] = 5" "current_min_sort [mk 1 5 0 0, mk 2 3 0 0] = 3"
    by (simp_all add: current_min_sort_def)
  have it0: "page_iteration late_fail_env 6289 ''null'' ?st0 = Inr (Continue ?st1)"
    by (simp add: page_iteration_def m0 late_fail_env_def issue_def idle_def raw_comments_def
        page_of_def py_or_def p2 Let_def insert_commute)
  have g1: "get_json late_fail_env (calls (wld ?st1)) (Page 6289 ''null'' (current_min_sort (comments ?st1)))
     = Inl RequestException"
    by (simp add: m0 late_fail_env_def)
  have f1: "paginate late_fail_env 6289 ''null'' 400 ?st1 = Inl RequestException"
    using page_failure_propagates[where st = ?st1 and mp = 400 and e = late_fail_env and sid = 6289
        and h = "''null''" and err = RequestException] g1 m0
    by simp
  have f0: "paginate late_fail_env 6289 ''null'' 400 ?st0 = Inl RequestException"
    using page_failure_propagates[where st = ?st0 and mp = 400 and e = late_fail_env and sid = 6289
        and h = "''null''" and st' = ?st1] it0 f1
    by simp
  have c: "collect_all_comments late_fail_env 400 idle = Inl RequestException"
    using page_failure_propagates[where e = late_fail_env and w = idle and m = ?m and st0 = ?st0
        and mp = 400 and err = RequestException] ib f0
    by simp
  have u: "startswith (strip ''https://fitgirl-repacks.site/x/'') ''https://''"
    by code_simp
  have "main late_fail_env 1000 ''https://fitgirl-repacks.site/x/'' 400 idle = Exited 1"
    using page_failure_propagates[where e = late_fail_env and w = idle and mp = 400
        and url = "''https://fitgirl-repacks.site/x/''" and depth = 1000] c u
    by simp
  with ib c show ?thesis by simp
qed

lemma count_by_root_snoc:
  "count_by_root (cms @ [c]) =
     (if answer_comment_root_id c \<noteq> 0
      then (count_by_root cms)(answer_comment_root_id c \<mapsto>
             (case count_by_root cms (answer_comment_root_id c) of None \<Rightarrow> 0 | Some n \<Rightarrow> n) + 1)
      else count_by_root cms)"
  by (simp add: count_by_root_def)

lemma count_by_root_get:
  "(case count_by_root cms k of None \<Rightarrow> 0 | Some n \<Rightarrow> n) =
     int (length (filter (\<lambda>c. answer_comment_root_id c \<noteq> 0 \<and> answer_comment_root_id c = k) cms))"
proof (induction cms rule: rev_induct)
  case Nil
  show ?case by (simp add: count_by_root_def)
next
  case (snoc c cms)
  then show ?case by (auto simp: count_by_root_snoc)
qed

lemma thread_merge_result:
  assumes "thread_merge r tdata st = Inr st'"
  shows "\<exists>new. comments st' = comments st @ new \<and> seen st' = seen st \<union> id_c ` set new \<and>
     distinct (map id_c new) \<and> id_c ` set new \<inter> seen st = {} \<and>
     calls (wld st') = calls (wld st) \<and> gets (wld st') = gets (wld st) \<and>
     pages_done st' = pages_done st \<and>
     (\<forall>k. k \<noteq> id_c r \<longrightarrow> by_root_count st' k = by_root_count st k)"
proof -
  from assms obtain raw items sn cms added where
    mr: "merge_records items (seen st, comments st, 0) = Inr (sn, cms, added)"
    and st': "st' = st\<lparr>seen := sn, comments := cms,
               by_root_count :=
                 (if added \<noteq> 0
                  then (by_root_count st)(id_c r \<mapsto>
                         int (length (filter (\<lambda>c. answer_comment_root_id c = id_c r) cms)))
                  else by_root_count st),
               wld := sleep (2 / 25) (wld st)\<rparr>"
    by (auto simp: thread_merge_def ebind_eq_Inr)
  from merge_records_result[OF mr] obtain new where new:
    "cms = comments st @ new" "sn = seen st \<union> id_c ` set new"
    "distinct (map id_c new)" "id_c ` set new \<inter> seen st = {}"
    by (elim exE conjE) (rule that; assumption)
  show ?thesis
    by (intro exI[of _ new]) (simp add: st' new sleep_def)
qed

text \<open>What the thread loop does for its first root.\<close>

lemma thread_loop_step:
  assumes "thread_loop e sid h (r # roots) st = Inr st'"
  shows "\<exists>sm new. thread_loop e sid h roots sm = Inr st' \<and>
     comments sm = comments st @ new \<and> seen sm = seen st \<union> id_c ` set new \<and>
     distinct (map id_c new) \<and> id_c ` set new \<inter> seen st = {} \<and>
     calls (wld sm) = calls (wld st) @
        (if (case by_root_count st (id_c r) of None \<Rightarrow> 0 | Some n \<Rightarrow> n) < reply_expected r
         then [Thread sid h (id_c r)] else []) \<and>
     gets (wld sm) = gets (wld st) \<and> pages_done sm = pages_done st \<and>
     (\<forall>k. k \<noteq> id_c r \<longrightarrow> by_root_count sm k = by_root_count st k)"
proof (cases "(case by_root_count st (id_c r) of None \<Rightarrow> 0 | Some n \<Rightarrow> n) < reply_expected r")
  case False
  with assms have "thread_loop e sid h roots st = Inr st'" by (simp add: Let_def)
  with False show ?thesis
    by (intro exI[of _ st] exI[of _ "[]"]) simp
next
  case True
  let ?rq = "Thread sid h (id_c r)"
  let ?st1 = "st\<lparr>wld := issue ?rq (wld st)\<rparr>"
  show ?thesis
  proof (cases "get_json e (calls (wld st)) ?rq")
    case (Inl err)
    with assms True have "thread_loop e sid h roots ?st1 = Inr st'"
      by (simp add: Let_def split: if_splits)
    with True show ?thesis
      by (intro exI[of _ ?st1] exI[of _ "[]"]) (simp add: issue_def)
  next
    case (Inr tdata)
    with assms True obtain st2 where tm: "thread_merge r tdata ?st1 = Inr st2"
      and rest: "thread_loop e sid h roots st2 = Inr st'"
      by (cases "thread_merge r tdata ?st1") (simp_all add: Let_def)
    from thread_merge_result[OF tm] obtain new where new:
      "comments st2 = comments ?st1 @ new" "seen st2 = seen ?st1 \<union> id_c ` set new"
      "distinct (map id_c new)" "id_c ` set new \<inter> seen ?st1 = {}"
      "calls (wld st2) = calls (wld ?st1)" "gets (wld st2) = gets (wld ?st1)"
      "pages_done st2 = pages_done ?st1"
      "\<forall>k. k \<noteq> id_c r \<longrightarrow> by_root_count st2 k = by_root_count ?st1 k"
      by (elim exE conjE) (rule that; assumption)
    with True rest show ?thesis
      by (intro exI[of _ st2] exI[of _ new]) (simp add: issue_def)
  qed
qed

lemma thread_loop_result:
  "thread_loop e sid h roots st = Inr st' \<Longrightarrow> distinct (map id_c roots) \<Longrightarrow>
   calls (wld st') = calls (wld st) @
     map (\<lambda>r. Thread sid h (id_c r))
       (filter (\<lambda>r. (case by_root_count st (id_c r) of None \<Rightarrow> 0 | Some n \<Rightarrow> n) < reply_expected r) roots) \<and>
   (\<exists>new. comments st' = comments st @ new \<and> seen st' = seen st \<union> id_c ` set new \<and>
      distinct (map id_c new) \<and> id_c ` set new \<inter> seen st = {}) \<and>
   gets (wld st') = gets (wld st) \<and> pages_done st' = pages_done st"
proof (induction roots arbitrary: st)
  case Nil
  then have "st' = st" by simp
  then show ?case by (simp add: exI[of _ "[]"])
next
  case (Cons r roots)
  from thread_loop_step[OF Cons.prems(1)] obtain sm new1 where sm:
    "thread_loop e sid h roots sm = Inr st'"
    "comments sm = comments st @ new1" "seen sm = seen st \<union> id_c ` set new1"
    "distinct (map id_c new1)" "id_c ` set new1 \<inter> seen st = {}"
    "calls (wld sm) = calls (wld st) @
        (if (case by_root_count st (id_c r) of None \<Rightarrow> 0 | Some n \<Rightarrow> n) < reply_expected r
         then [Thread sid h (id_c r)] else [])"
    "gets (wld sm) = gets (wld st)" "pages_done sm = pages_done st"
    "\<forall>k. k \<noteq> id_c r \<longrightarrow> by_root_count sm k = by_root_count st k"
    by (elim exE conjE) (rule that; assumption)
  from Cons.prems(2) have d: "distinct (map id_c roots)" and nr: "id_c r \<notin> id_c ` set roots"
    by auto
  from Cons.IH[OF sm(1) d] obtain new2 where ih:
    "calls (wld st') = calls (wld sm) @
       map (\<lambda>r. Thread sid h (id_c r))
         (filter (\<lambda>r. (case by_root_count sm (id_c r) of None \<Rightarrow> 0 | Some n \<Rightarrow> n) < reply_expected r) roots)"
    "comments st' = comments sm @ new2" "seen st' = seen sm \<union> id_c ` set new2"
    "distinct (map id_c new2)" "id_c ` set new2 \<inter> seen sm = {}"
    "gets (wld st') = gets (wld sm)" "pages_done st' = pages_done sm"
    by (elim exE conjE) (rule that; assumption)
  have same: "filter (\<lambda>r. (case by_root_count sm (id_c r) of None \<Rightarrow> 0 | Some n \<Rightarrow> n) < reply_expected r) roots
     = filter (\<lambda>r. (case by_root_count st (id_c r) of None \<Rightarrow> 0 | Some n \<Rightarrow> n) < reply_expected r) roots"
  proof (rule filter_cong[OF refl])
    fix x assume "x \<in> set roots"
    then have "id_c x \<in> id_c ` set roots" by (rule imageI)
    with nr have "id_c x \<noteq> id_c r" by metis
    with sm(9) have "by_root_count sm (id_c x) = by_root_count st (id_c x)" by simp
    then show "((case by_root_count sm (id_c x) of None \<Rightarrow> 0 | Some n \<Rightarrow> n) < reply_expected x)
       = ((case by_root_count st (id_c x) of None \<Rightarrow> 0 | Some n \<Rightarrow> n) < reply_expected x)"
      by simp
  qed
  have calls: "calls (wld st') = calls (wld st) @
     map (\<lambda>r. Thread sid h (id_c r))
       (filter (\<lambda>r. (case by_root_count st (id_c r) of None \<Rightarrow> 0 | Some n \<Rightarrow> n) < reply_expected r) (r # roots))"
    using ih(1) sm(6) same by simp
  have coll: "\<exists>new. comments st' = comments st @ new \<and> seen st' = seen st \<union> id_c ` set new \<and>
      distinct (map id_c new) \<and> id_c ` set new \<inter> seen st = {}"
  proof (intro exI[of _ "new1 @ new2"] conjI)
    show "comments st' = comments st @ new1 @ new2" using ih(2) sm(2) by simp
    show "seen st' = seen st \<union> id_c ` set (new1 @ new2)" using ih(3) sm(3) by auto
    show "distinct (map id_c (new1 @ new2))" using ih(4,5) sm(3,4) by auto
    show "id_c ` set (new1 @ new2) \<inter> seen st = {}" using ih(5) sm(3,5) by auto
  qed
  from calls coll ih(6,7) sm(7,8) show ?case by simp
qed

lemma count_list_thread_calls:
  "distinct (map id_c rs) \<Longrightarrow> r \<in> set rs \<Longrightarrow>
   count_list (map (\<lambda>r. Thread sid h (id_c r)) (filter P rs)) (Thread sid h (id_c r)) =
     (if P r then 1 else 0)"
proof (induction rs)
  case Nil
  then show ?case by simp
next
  case (Cons x rs)
  show ?case
  proof (cases "x = r")
    case True
    with Cons.prems(1) have "id_c r \<notin> id_c ` set rs" by auto
    then have "count_list (map (\<lambda>r. Thread sid h (id_c r)) (filter P rs)) (Thread sid h (id_c r)) = 0"
      by (auto simp: count_list_0_iff)
    with True show ?thesis by simp
  next
    case False
    with Cons.prems have r: "r \<in> set rs" and d: "distinct (map id_c rs)" and "id_c x \<noteq> id_c r"
      by auto
    with Cons.IH[OF d r] show ?thesis by simp
  qed
qed

text \<open>
  C5. The thread-completion phase goes once through the roots held when it starts. It
  issues one thread call for a root exactly when the expected reply count of the root
  exceeds the number of replies held for it when the phase starts (the comments filed
  under its id; for a root with a nonzero id these are the comments whose root id is its
  id), and
  no call for any other root; a call that fails at the transport level counts as issued.
  When the phase returns, the collection is the old one followed by comments with ids
  not held before, each once, so nothing collected is removed or altered.
\<close>

theorem thread_completion_calls:
  assumes "thread_completion e sid h st = Inr st'" and "keyed_by_id st"
  shows "calls (wld st') = calls (wld st) @
       map (\<lambda>r. Thread sid h (id_c r))
         (filter (\<lambda>r. replies_held (comments st) r < reply_expected r) (roots_of (comments st))) \<and>
     (\<forall>r\<in>set (roots_of (comments st)).
        count_list (drop (length (calls (wld st))) (calls (wld st'))) (Thread sid h (id_c r)) =
          (if replies_held (comments st) r < reply_expected r then 1 else 0)) \<and>
     (\<forall>r. id_c r \<noteq> 0 \<longrightarrow>
        replies_held (comments st) r =
          int (length (filter (\<lambda>c. answer_comment_root_id c = id_c r) (comments st)))) \<and>
     (\<exists>new. comments st' = comments st @ new \<and> distinct (map id_c new) \<and>
        id_c ` set new \<inter> id_c ` set (comments st) = {}) \<and>
     keyed_by_id st'"
proof -
  let ?roots = "roots_of (comments st)"
  let ?st0 = "st\<lparr>by_root_count := count_by_root (comments st)\<rparr>"
  let ?P = "\<lambda>r. replies_held (comments st) r < reply_expected r"
  from assms(2) have sn: "seen st = id_c ` set (comments st)" and d: "distinct (map id_c (comments st))"
    by (simp_all add: keyed_by_id_def)
  from d have dr: "distinct (map id_c ?roots)"
    by (simp add: roots_of_def distinct_map_filter)
  from assms(1) have tl: "thread_loop e sid h ?roots ?st0 = Inr st'"
    by (simp add: thread_completion_def roots_of_def)
  have P: "(\<lambda>r. (case by_root_count ?st0 (id_c r) of None \<Rightarrow> 0 | Some n \<Rightarrow> n) < reply_expected r) = ?P"
    by (simp add: count_by_root_get replies_held_def)
  from thread_loop_result[OF tl dr] obtain new where r:
    "calls (wld st') = calls (wld ?st0) @ map (\<lambda>r. Thread sid h (id_c r))
       (filter (\<lambda>r. (case by_root_count ?st0 (id_c r) of None \<Rightarrow> 0 | Some n \<Rightarrow> n) < reply_expected r) ?roots)"
    "comments st' = comments ?st0 @ new" "seen st' = seen ?st0 \<union> id_c ` set new"
    "distinct (map id_c new)" "id_c ` set new \<inter> seen ?st0 = {}"
    by (elim exE conjE) (rule that; assumption)
  have calls: "calls (wld st') = calls (wld st) @ map (\<lambda>r. Thread sid h (id_c r)) (filter ?P ?roots)"
    using r(1) unfolding P by simp
  have cnt: "\<forall>r\<in>set ?roots.
        count_list (drop (length (calls (wld st))) (calls (wld st'))) (Thread sid h (id_c r)) =
          (if ?P r then 1 else 0)"
    unfolding calls by (simp add: count_list_thread_calls[OF dr])
  have held: "\<forall>r. id_c r \<noteq> 0 \<longrightarrow>
        replies_held (comments st) r =
          int (length (filter (\<lambda>c. answer_comment_root_id c = id_c r) (comments st)))"
  proof (intro allI impI)
    fix r :: Comment assume "id_c r \<noteq> 0"
    then have "filter (\<lambda>c. answer_comment_root_id c \<noteq> 0 \<and> answer_comment_root_id c = id_c r) (comments st)
       = filter (\<lambda>c. answer_comment_root_id c = id_c r) (comments st)"
      by (intro filter_cong) auto
    then show "replies_held (comments st) r =
          int (length (filter (\<lambda>c. answer_comment_root_id c = id_c r) (comments st)))"
      by (simp add: replies_held_def)
  qed
  have add: "\<exists>new. comments st' = comments st @ new \<and> distinct (map id_c new) \<and>
        id_c ` set new \<inter> id_c ` set (comments st) = {}"
    using r(2,4,5) sn by (intro exI[of _ new]) simp
  have keyed: "keyed_by_id st'"
    using r(2-5) sn d by (auto simp: keyed_by_id_def)
  from calls cnt held add keyed show ?thesis by (intro conjI)
qed

theorem thread_completion_calls_witness:
  "keyed_by_id after_pages \<and>
   map_sum id (\<lambda>s. (comments s, calls (wld s))) (thread_completion thread_env 6289 ''null'' after_pages) =
     Inr (held @ [mk 13 6 1 0], [First, Page 6289 ''null'' 3, Thread 6289 ''null'' 1]) \<and>
   replies_held held (held ! 0) = 2 \<and> reply_expected (held ! 0) = 5 \<and>
   replies_held held (held ! 3) = 1 \<and> reply_expected (held ! 3) = 1 \<and>
   (\<exists>st'. thread_completion thread_env 6289 ''null'' after_pages = Inr st' \<and>
      calls (wld st') = calls (wld after_pages) @
        map (\<lambda>r. Thread 6289 ''null'' (id_c r))
          (filter (\<lambda>r. replies_held (comments after_pages) r < reply_expected r)
             (roots_of (comments after_pages))))"
proof -
  have k: "keyed_by_id after_pages"
    by code_simp
  have run: "map_sum id (\<lambda>s. (comments s, calls (wld s)))
       (thread_completion thread_env 6289 ''null'' after_pages) =
     Inr (held @ [mk 13 6 1 0], [First, Page 6289 ''null'' 3, Thread 6289 ''null'' 1])"
    by code_simp
  have n: "replies_held held (held ! 0) = 2" "reply_expected (held ! 0) = 5"
    "replies_held held (held ! 3) = 1" "reply_expected (held ! 3) = 1"
    by code_simp+
  from run obtain st' where st': "thread_completion thread_env 6289 ''null'' after_pages = Inr st'"
    by (cases "thread_completion thread_env 6289 ''null'' after_pages") auto
  from thread_completion_calls[OF st' k] have
    "calls (wld st') = calls (wld after_pages) @
        map (\<lambda>r. Thread 6289 ''null'' (id_c r))
          (filter (\<lambda>r. replies_held (comments after_pages) r < reply_expected r)
             (roots_of (comments after_pages)))"
    by (rule conjunct1)
  with st' have "\<exists>st'. thread_completion thread_env 6289 ''null'' after_pages = Inr st' \<and>
      calls (wld st') = calls (wld after_pages) @
        map (\<lambda>r. Thread 6289 ''null'' (id_c r))
          (filter (\<lambda>r. replies_held (comments after_pages) r < reply_expected r)
             (roots_of (comments after_pages)))"
    by (intro exI[of _ st'] conjI)
  with k run n show ?thesis by (intro conjI)
qed

lemma keyed_by_id_append:
  assumes "keyed_by_id st" "comments st' = comments st @ new" "seen st' = seen st \<union> id_c ` set new"
    "distinct (map id_c new)" "id_c ` set new \<inter> seen st = {}"
  shows "keyed_by_id st'"
  using assms by (auto simp: keyed_by_id_def)

lemma initial_batch_keyed:
  assumes "initial_batch e w = Inr (m, st0)"
  shows "keyed_by_id st0"
proof -
  from assms obtain initial where "get_json e (calls w) First = Inr initial"
    by (cases "get_json e (calls w) First") (auto simp: initial_batch_def)
  with assms obtain items sn cms added where
    mr: "merge_records items ({}, [], 0) = Inr (sn, cms, added)"
    and st0: "seen st0 = sn" "comments st0 = cms"
    by (auto simp: initial_batch_def ebind_eq_Inr Let_def)
  from merge_records_keyed[OF mr] st0 show ?thesis
    by (simp add: keyed_by_id_def)
qed

lemma paginate_keyed:
  assumes "paginate e sid h mp st = Inr st'" "keyed_by_id st"
  shows "keyed_by_id st' \<and> take (length (comments st)) (comments st') = comments st"
proof -
  from paginate_result[OF assms(1)] obtain new where
    n: "comments st' = comments st @ new" "seen st' = seen st \<union> id_c ` set new"
    "distinct (map id_c new)" "id_c ` set new \<inter> seen st = {}"
    by (elim exE conjE) (rule that; assumption)
  from keyed_by_id_append[OF assms(2) n] n(1) show ?thesis by simp
qed

lemma thread_completion_keyed:
  assumes "thread_completion e sid h st = Inr st'" "keyed_by_id st"
  shows "keyed_by_id st' \<and> take (length (comments st)) (comments st') = comments st"
proof -
  let ?st0 = "st\<lparr>by_root_count := count_by_root (comments st)\<rparr>"
  from assms(2) have d: "distinct (map id_c (roots_of (comments st)))"
    by (simp add: keyed_by_id_def roots_of_def distinct_map_filter)
  from assms(1) have tl: "thread_loop e sid h (roots_of (comments st)) ?st0 = Inr st'"
    by (simp add: thread_completion_def roots_of_def)
  from thread_loop_result[OF tl d] obtain new where
    n: "comments st' = comments ?st0 @ new" "seen st' = seen ?st0 \<union> id_c ` set new"
    "distinct (map id_c new)" "id_c ` set new \<inter> seen ?st0 = {}"
    by (elim exE conjE) (rule that; assumption)
  from assms(2) have "keyed_by_id ?st0" by (simp add: keyed_by_id_def)
  from keyed_by_id_append[OF this n] n(1) show ?thesis by simp
qed

lemma embed_avatars_comments:
  assumes "embed_avatars e cms w = (cms', w')"
  shows "map forget_embedding cms' = map forget_embedding cms"
proof -
  obtain cache w1 where
    fc: "fill_cache e (set_iter e (map (\<lambda>c. ava (user c)) (filter (\<lambda>c. ava (user c) \<noteq> []) cms)))
           (Map.empty, w) = (cache, w1)"
    by (cases "fill_cache e (set_iter e (map (\<lambda>c. ava (user c)) (filter (\<lambda>c. ava (user c) \<noteq> []) cms)))
           (Map.empty, w)") auto
  with assms have "cms' = map (\<lambda>c. case (if ava (user c) \<noteq> [] then cache_get cache (ava (user c)) else None) of
                      Some d \<Rightarrow> c\<lparr>user := (user c)\<lparr>ava_data_uri := d\<rparr>\<rparr>
                    | None \<Rightarrow> c) cms"
    by (simp add: embed_avatars_def Let_def)
  then show ?thesis
    by (auto simp: forget_embedding_def split: option.splits)
qed

lemma forget_embedding_id [simp]: "id_c (forget_embedding c) = id_c c"
  by (simp add: forget_embedding_def)

lemma reconcile_forget_parent: "map forget_parent (reconcile cms) = map forget_parent cms"
  by (simp add: reconcile_def forget_parent_def)

text \<open>
  C2, as stated, fails: tree assembly does alter a field that is not an embedding field.
  The first loop of \<open>build_html\<close> writes the inferred parent: the reply parsed from
  \<open>plain_reply_raw\<close> enters with \<open>parent_id\<close> 0 and leaves with 42.
\<close>

theorem build_html_mutates_counterexample:
  "parse_comment plain_reply_raw = Inr plain_reply \<and>
   forget_embedding (fst (build_html 1 [plain_reply] []) ! 0) \<noteq> forget_embedding plain_reply \<and>
   parent_id plain_reply = 0 \<and> parent_id (fst (build_html 1 [plain_reply] []) ! 0) = 42"
  by code_simp

text \<open>
  C2, amended. The collection is keyed by id in every phase: after the initial batch,
  after pagination and after thread completion \<open>seen\<close> is the set of ids held and no
  id is held twice. A record whose id is already seen is parsed and dropped, leaving the
  collection as it was, so the comment first seen for an id stays. Pagination and thread
  completion only append; the avatar pass changes no field but the inline avatar of the
  author; the linked-image pass returns its pairs in a dictionary of its own and leaves
  the comments alone; tree assembly changes no field but the inferred parent.
\<close>

theorem collection_keyed_by_id:
  "(collect_all_comments e mp w = Inr (m, cms, imgs, w') \<longrightarrow>
      (\<exists>m0 st0 st1 st2.
         initial_batch e w = Inr (m0, st0) \<and>
         paginate e (site_id m0) (hash m0) mp st0 = Inr st1 \<and>
         thread_completion e (site_id m0) (hash m0) st1 = Inr st2 \<and>
         keyed_by_id st0 \<and> keyed_by_id st1 \<and> keyed_by_id st2 \<and>
         take (length (comments st0)) (comments st1) = comments st0 \<and>
         take (length (comments st1)) (comments st2) = comments st1 \<and>
         map forget_embedding cms = map forget_embedding (comments st2)) \<and>
      distinct (map id_c cms) \<and>
      map forget_parent (fst (build_html depth cms imgs)) = map forget_parent cms \<and>
      distinct (map id_c (fst (build_html depth cms imgs)))) \<and>
   (parse_comment c = Inr cm \<and> id_c cm \<in> sn \<longrightarrow>
      merge_records [c] (sn, xs, added) = Inr (sn, xs, added))"
proof (intro conjI impI)
  assume "parse_comment c = Inr cm \<and> id_c cm \<in> sn"
  then show "merge_records [c] (sn, xs, added) = Inr (sn, xs, added)" by simp
next
  assume run: "collect_all_comments e mp w = Inr (m, cms, imgs, w')"
  then obtain m0 st0 where ib: "initial_batch e w = Inr (m0, st0)"
    by (cases "initial_batch e w") (auto simp: collect_all_comments_def)
  with run obtain st1 where pg: "paginate e (site_id m0) (hash m0) mp st0 = Inr st1"
    by (cases "paginate e (site_id m0) (hash m0) mp st0") (auto simp: collect_all_comments_def)
  with run ib obtain st2 where tc: "thread_completion e (site_id m0) (hash m0) st1 = Inr st2"
    by (cases "thread_completion e (site_id m0) (hash m0) st1") (auto simp: collect_all_comments_def)
  obtain cms1 w1 where ea: "embed_avatars e (comments st2) (wld st2) = (cms1, w1)"
    by (cases "embed_avatars e (comments st2) (wld st2)") auto
  with run ib pg tc have cms: "cms = cms1"
    by (auto simp: collect_all_comments_def ebind_eq_Inr)
  note k0 = initial_batch_keyed[OF ib]
  note k1 = paginate_keyed[OF pg k0]
  note k2 = thread_completion_keyed[OF tc k1[THEN conjunct1]]
  have fe: "map forget_embedding cms = map forget_embedding (comments st2)"
    using embed_avatars_comments[OF ea] cms by simp
  from arg_cong[OF fe, of "map id_c"] have ids: "map id_c cms = map id_c (comments st2)"
    by (simp add: comp_def)
  show "\<exists>m0 st0 st1 st2.
         initial_batch e w = Inr (m0, st0) \<and>
         paginate e (site_id m0) (hash m0) mp st0 = Inr st1 \<and>
         thread_completion e (site_id m0) (hash m0) st1 = Inr st2 \<and>
         keyed_by_id st0 \<and> keyed_by_id st1 \<and> keyed_by_id st2 \<and>
         take (length (comments st0)) (comments st1) = comments st0 \<and>
         take (length (comments st1)) (comments st2) = comments st1 \<and>
         map forget_embedding cms = map forget_embedding (comments st2)"
    using ib pg tc k0 k1 k2 fe
    by (intro exI[of _ m0] exI[of _ st0] exI[of _ st1] exI[of _ st2]) simp
  show d: "distinct (map id_c cms)"
    using k2 ids by (simp add: keyed_by_id_def)
  show "map forget_parent (fst (build_html depth cms imgs)) = map forget_parent cms"
    by (simp add: build_html_def Let_def reconcile_forget_parent)
  show "distinct (map id_c (fst (build_html depth cms imgs)))"
    using d by (simp add: build_html_def Let_def)
qed

theorem collection_keyed_by_id_witness:
  "collect_all_comments dup_env 400 idle =
     Inr (\<lparr>title = ''FitGirl Comments'', site_id = 6289, hash = ''null'', total_reported = 0,
           pages = 1\<rparr>,
          [mk 1 5 0 0, mk 2 0 0 0], [], \<lparr>calls = [First, Page 6289 ''null'' 5], gets = [], sleeps = [3 / 25]\<rparr>) \<and>
   distinct (map id_c [mk 1 5 0 0, mk 2 0 0 0]) \<and>
   map forget_parent (fst (build_html 3 [mk 1 5 0 0, mk 2 0 0 0] [])) =
     map forget_parent [mk 1 5 0 0, mk 2 0 0 0] \<and>
   merge_records [rec_of 1 9] ({1}, [mk 1 5 0 0], 1) = Inr ({1}, [mk 1 5 0 0], 1)"
proof -
  have run: "collect_all_comments dup_env 400 idle =
     Inr (\<lparr>title = ''FitGirl Comments'', site_id = 6289, hash = ''null'', total_reported = 0,
           pages = 1\<rparr>,
          [mk 1 5 0 0, mk 2 0 0 0], [], \<lparr>calls = [First, Page 6289 ''null'' 5], gets = [], sleeps = [3 / 25]\<rparr>)"
    by code_simp
  have p: "parse_comment (rec_of 1 9) = Inr (mk 1 9 0 0)" by code_simp
  note t = collection_keyed_by_id[where e = dup_env and mp = 400 and w = idle
      and cms = "[mk 1 5 0 0, mk 2 0 0 0]" and imgs = "[]" and depth = 3
      and c = "rec_of 1 9" and cm = "mk 1 9 0 0" and sn = "{1}" and xs = "[mk 1 5 0 0]" and added = 1]
  from t run have a: "distinct (map id_c [mk 1 5 0 0, mk 2 0 0 0])"
    "map forget_parent (fst (build_html 3 [mk 1 5 0 0, mk 2 0 0 0] [])) =
       map forget_parent [mk 1 5 0 0, mk 2 0 0 0]"
    by blast+
  from t p have b: "merge_records [rec_of 1 9] ({1}, [mk 1 5 0 0], 1) = Inr ({1}, [mk 1 5 0 0], 1)"
    by simp
  from run a b show ?thesis by (intro conjI)
qed

section \<open>Properties of the embedding passes\<close>

lemma count_list_replicate: "count_list (replicate k u) v = (if u = v then k else 0)"
  by (induction k) auto

lemma fetch_loop_calls: "fetch_loop e url n d w = (r, w') \<Longrightarrow> calls w' = calls w"
proof (induction n arbitrary: d w)
  case 0
  then show ?case by auto
next
  case (Suc n)
  show ?case
  proof (cases "attempt e (gets w) url")
    case None
    with Suc.prems have
      "fetch_loop e url n (d * 2) (w\<lparr>gets := gets w @ [url], sleeps := sleeps w @ [d]\<rparr>) = (r, w')"
      by simp
    from Suc.IH[OF this] show ?thesis by simp
  next
    case (Some x)
    with Suc.prems show ?thesis by auto
  qed
qed

text \<open>One resolution: between one and three GETs of the URL, one after the other.\<close>

lemma url_to_data_uri_block:
  assumes "url_to_data_uri e url 3 w = (r, w')"
  shows "\<exists>k. 1 \<le> k \<and> k \<le> 3 \<and> gets w' = gets w @ replicate k url \<and> calls w' = calls w \<and>
     (\<forall>d. r = Some d \<longrightarrow> (\<exists>hist. attempt e hist url = Some d)) \<and>
     (attempt e (gets w) url \<noteq> None \<longrightarrow> k = 1)"
proof -
  from assms have fl: "fetch_loop e url 3 (1 / 4) w = (r, w')"
    by (simp add: url_to_data_uri_def)
  from fetch_loop_result[OF fl] obtain k where k: "k \<le> 3" "gets w' = gets w @ replicate k url"
    "\<forall>i<(case r of None \<Rightarrow> k | Some _ \<Rightarrow> k - 1). attempt e (gets w @ replicate i url) url = None"
    "case r of None \<Rightarrow> k = 3 | Some x \<Rightarrow> 0 < k \<and> attempt e (gets w @ replicate (k - 1) url) url = Some x"
    by (elim exE conjE) (rule that; assumption)
  have pos: "1 \<le> k" using k(4) by (cases r) auto
  have hit: "\<forall>d. r = Some d \<longrightarrow> (\<exists>hist. attempt e hist url = Some d)"
    using k(4) by auto
  have first: "attempt e (gets w) url \<noteq> None \<longrightarrow> k = 1"
  proof
    assume a: "attempt e (gets w) url \<noteq> None"
    show "k = 1"
    proof (rule ccontr)
      assume "k \<noteq> 1"
      with pos have "0 < (case r of None \<Rightarrow> k | Some _ \<Rightarrow> k - 1)"
        by (cases r) auto
      with k(3) have "attempt e (gets w @ replicate 0 url) url = None" by blast
      with a show False by simp
    qed
  qed
  from pos k(1,2) fetch_loop_calls[OF fl] hit first show ?thesis
    by (intro exI[of _ k]) simp
qed

lemma fill_cache_blocks:
  "fill_cache e urls (cache, w) = (cache', w') \<Longrightarrow> distinct urls \<Longrightarrow>
   \<exists>k. (\<forall>u. 1 \<le> k u \<and> k u \<le> (3::nat)) \<and>
       gets w' = gets w @ concat (map (\<lambda>u. replicate (k u) u) urls) \<and> calls w' = calls w \<and>
       (\<forall>u. u \<notin> set urls \<longrightarrow> cache' u = cache u) \<and>
       (\<forall>u\<in>set urls. cache' u \<noteq> None) \<and>
       (\<forall>u\<in>set urls. \<forall>d. cache' u = Some (Some d) \<longrightarrow> (\<exists>hist. attempt e hist u = Some d)) \<and>
       (\<forall>u\<in>set urls. (\<forall>hist. attempt e hist u \<noteq> None) \<longrightarrow> k u = 1)"
proof (induction urls arbitrary: cache w)
  case Nil
  then show ?case by (intro exI[of _ "\<lambda>_. 1"]) simp
next
  case (Cons url urls)
  obtain r w1 where u: "url_to_data_uri e url 3 w = (r, w1)"
    by (cases "url_to_data_uri e url 3 w") auto
  let ?w2 = "w1\<lparr>sleeps := sleeps w1 @ [1 / 20]\<rparr>"
  from Cons.prems(1) u have rest: "fill_cache e urls (cache(url \<mapsto> r), ?w2) = (cache', w')"
    by simp
  from Cons.prems(2) have d: "distinct urls" and nu: "url \<notin> set urls" by auto
  from url_to_data_uri_block[OF u] obtain k0 where k0: "1 \<le> k0" "k0 \<le> 3"
    "gets w1 = gets w @ replicate k0 url" "calls w1 = calls w"
    "\<forall>d. r = Some d \<longrightarrow> (\<exists>hist. attempt e hist url = Some d)"
    "attempt e (gets w) url \<noteq> None \<longrightarrow> k0 = 1"
    by (elim exE conjE) (rule that; assumption)
  from Cons.IH[OF rest d] obtain k where k: "\<forall>u. 1 \<le> k u \<and> k u \<le> 3"
    "gets w' = gets ?w2 @ concat (map (\<lambda>u. replicate (k u) u) urls)" "calls w' = calls ?w2"
    "\<forall>u. u \<notin> set urls \<longrightarrow> cache' u = (cache(url \<mapsto> r)) u"
    "\<forall>u\<in>set urls. cache' u \<noteq> None"
    "\<forall>u\<in>set urls. \<forall>d. cache' u = Some (Some d) \<longrightarrow> (\<exists>hist. attempt e hist u = Some d)"
    "\<forall>u\<in>set urls. (\<forall>hist. attempt e hist u \<noteq> None) \<longrightarrow> k u = 1"
    by (elim exE conjE) (rule that; assumption)
  let ?k = "k(url := k0)"
  have same: "map (\<lambda>u. replicate (?k u) u) urls = map (\<lambda>u. replicate (k u) u) urls"
    using nu by (intro map_cong) auto
  have cu: "cache' url = Some r" using k(4) nu by simp
  show ?case
  proof (intro exI[of _ ?k] conjI)
    show "\<forall>u. 1 \<le> ?k u \<and> ?k u \<le> 3" using k(1) k0(1,2) by simp
    show "gets w' = gets w @ concat (map (\<lambda>u. replicate (?k u) u) (url # urls))"
      using k(2) k0(3) arg_cong[OF same, of concat] by (simp add: fun_upd_same del: fun_upd_apply)
    show "calls w' = calls w" using k(3) k0(4) by simp
    show "\<forall>u. u \<notin> set (url # urls) \<longrightarrow> cache' u = cache u" using k(4) by simp
    show "\<forall>u\<in>set (url # urls). cache' u \<noteq> None" using k(5) cu by simp
    show "\<forall>u\<in>set (url # urls). \<forall>d. cache' u = Some (Some d) \<longrightarrow> (\<exists>hist. attempt e hist u = Some d)"
      using k(6) cu k0(5) by simp
    show "\<forall>u\<in>set (url # urls). (\<forall>hist. attempt e hist u \<noteq> None) \<longrightarrow> ?k u = 1"
      using k(7) k0(6) nu by auto
  qed
qed

lemma dict_set_keys: "map fst (dict_set k v kvs) = (if k \<in> fst ` set kvs then map fst kvs else map fst kvs @ [k])"
proof (induction kvs)
  case Nil
  show ?case by simp
next
  case (Cons kv kvs)
  obtain a b where kv: "kv = (a, b)" by (cases kv) auto
  show ?case
  proof (cases "k = a")
    case True
    then show ?thesis by (simp add: kv)
  next
    case False
    with Cons show ?thesis by (simp add: kv)
  qed
qed

lemma dict_set_distinct: "distinct (map fst kvs) \<Longrightarrow> distinct (map fst (dict_set k v kvs))"
  by (simp add: dict_set_keys)

lemma dict_set_set:
  "(k', v') \<in> set (dict_set k v kvs) \<Longrightarrow> (k' = k \<and> v' = v) \<or> (k', v') \<in> set kvs"
  by (induction kvs) (auto split: if_splits)

lemma gather_urls_result:
  "gather_urls cms (pcu, allu) = Inr (pcu', allu') \<Longrightarrow>
   allu' = allu @ all_image_links cms \<and>
   (distinct (map fst pcu) \<longrightarrow> distinct (map fst pcu')) \<and>
   (\<forall>cid ul. (cid, ul) \<in> set pcu' \<longrightarrow>
      (cid, ul) \<in> set pcu \<or> (\<exists>c\<in>set cms. id_c c = cid \<and> discover_image_links c = Inr ul \<and> ul \<noteq> []))"
proof (induction cms arbitrary: pcu allu)
  case Nil
  then show ?case by (simp add: all_image_links_def)
next
  case (Cons c cms)
  from Cons.prems obtain ulist where dl: "discover_image_links c = Inr ulist"
    by (cases "discover_image_links c") auto
  let ?pcu = "if ulist \<noteq> [] then dict_set (id_c c) ulist pcu else pcu"
  let ?allu = "if ulist \<noteq> [] then allu @ ulist else allu"
  from Cons.prems dl have rest: "gather_urls cms (?pcu, ?allu) = Inr (pcu', allu')"
    by (simp split: if_splits)
  note ih = Cons.IH[OF rest]
  have a: "allu' = allu @ all_image_links (c # cms)"
    using ih dl by (simp add: all_image_links_def)
  have b: "distinct (map fst pcu) \<longrightarrow> distinct (map fst pcu')"
    using ih by (simp add: dict_set_distinct)
  have c: "\<forall>cid ul. (cid, ul) \<in> set pcu' \<longrightarrow>
      (cid, ul) \<in> set pcu \<or>
      (\<exists>x\<in>set (c # cms). id_c x = cid \<and> discover_image_links x = Inr ul \<and> ul \<noteq> [])"
  proof (intro allI impI)
    fix cid ul assume "(cid, ul) \<in> set pcu'"
    with ih have "(cid, ul) \<in> set ?pcu \<or>
      (\<exists>x\<in>set cms. id_c x = cid \<and> discover_image_links x = Inr ul \<and> ul \<noteq> [])"
      by blast
    then show "(cid, ul) \<in> set pcu \<or>
      (\<exists>x\<in>set (c # cms). id_c x = cid \<and> discover_image_links x = Inr ul \<and> ul \<noteq> [])"
      using dl by (auto dest: dict_set_set split: if_splits)
  qed
  from a b c show ?case by (intro conjI)
qed

lemma record_items_result:
  "record_items cache pcu bc = bc' \<Longrightarrow>
   (distinct (map fst bc) \<longrightarrow> distinct (map fst bc')) \<and>
   (\<forall>cid items. (cid, items) \<in> set bc' \<longrightarrow>
      (cid, items) \<in> set bc \<or>
      (\<exists>ul. (cid, ul) \<in> set pcu \<and> items = resolved_items cache ul \<and> items \<noteq> []))"
proof (induction pcu arbitrary: bc)
  case Nil
  then show ?case by simp
next
  case (Cons p pcu)
  obtain cid0 ul0 where p: "p = (cid0, ul0)" by (cases p) auto
  let ?items = "resolved_items cache ul0"
  let ?bc = "if ?items \<noteq> [] then dict_set cid0 ?items bc else bc"
  from Cons.prems p have rest: "record_items cache pcu ?bc = bc'"
    by (simp add: Let_def)
  note ih = Cons.IH[OF rest]
  have a: "distinct (map fst bc) \<longrightarrow> distinct (map fst bc')"
    using ih by (simp add: dict_set_distinct)
  have b: "\<forall>cid items. (cid, items) \<in> set bc' \<longrightarrow>
      (cid, items) \<in> set bc \<or>
      (\<exists>ul. (cid, ul) \<in> set (p # pcu) \<and> items = resolved_items cache ul \<and> items \<noteq> [])"
  proof (intro allI impI)
    fix cid items assume "(cid, items) \<in> set bc'"
    with ih have "(cid, items) \<in> set ?bc \<or>
      (\<exists>ul. (cid, ul) \<in> set pcu \<and> items = resolved_items cache ul \<and> items \<noteq> [])"
      by blast
    then show "(cid, items) \<in> set bc \<or>
      (\<exists>ul. (cid, ul) \<in> set (p # pcu) \<and> items = resolved_items cache ul \<and> items \<noteq> [])"
      using p by (auto dest: dict_set_set split: if_splits)
  qed
  from a b show ?case by (intro conjI)
qed

lemma resolved_items_fst:
  "map fst (resolved_items cache ul) = filter (\<lambda>u. cache_get cache u \<noteq> None) ul"
  by (induction ul) (auto simp: resolved_items_def split: option.splits)

lemma resolved_items_hit:
  "(u, d) \<in> set (resolved_items cache ul) \<Longrightarrow> u \<in> set ul \<and> cache_get cache u = Some d"
  by (auto simp: resolved_items_def split: option.splits)

lemma cache_get_Some: "cache_get cache u = Some d \<Longrightarrow> cache u = Some (Some d) \<and> d \<noteq> []"
  by (auto simp: cache_get_def split: option.splits if_splits)

lemma embed_linked_images_result:
  assumes "embed_linked_images e cms w = Inr (by_comment, w')"
  shows "\<exists>pcu cache. gather_urls cms ([], []) = Inr (pcu, all_image_links cms) \<and>
     fill_cache e (set_iter e (all_image_links cms)) (Map.empty, w) = (cache, w') \<and>
     by_comment = record_items cache pcu []"
proof -
  from assms obtain pcu allu where g: "gather_urls cms ([], []) = Inr (pcu, allu)"
    by (cases "gather_urls cms ([], [])") (auto simp: embed_linked_images_def)
  from gather_urls_result[OF g] have allu: "allu = all_image_links cms" by simp
  obtain cache w1 where f: "fill_cache e (set_iter e allu) (Map.empty, w) = (cache, w1)"
    by (cases "fill_cache e (set_iter e allu) (Map.empty, w)") auto
  from assms g f have "by_comment = record_items cache pcu []" "w' = w1"
    by (simp_all add: embed_linked_images_def)
  with g f allu show ?thesis by auto
qed

lemma embed_avatars_result:
  assumes "embed_avatars e cms w = (cms', w')"
  shows "\<exists>cache. fill_cache e (set_iter e (avatar_urls cms)) (Map.empty, w) = (cache, w') \<and>
     cms' = map (\<lambda>c. case (if ava (user c) \<noteq> [] then cache_get cache (ava (user c)) else None) of
                      Some d \<Rightarrow> c\<lparr>user := (user c)\<lparr>ava_data_uri := d\<rparr>\<rparr>
                    | None \<Rightarrow> c) cms"
proof -
  obtain cache w1 where f: "fill_cache e (set_iter e (avatar_urls cms)) (Map.empty, w) = (cache, w1)"
    by (cases "fill_cache e (set_iter e (avatar_urls cms)) (Map.empty, w)") auto
  with assms show ?thesis
    by (auto simp: embed_avatars_def avatar_urls_def Let_def)
qed

text \<open>
  C7, as stated, fails: the cache does not span the run. Each pass starts with an empty
  cache of its own, so an image that is an avatar and is linked in a body is fetched in
  both passes. In the run against \<open>ok_env\<close> the one URL is requested twice.
\<close>

theorem fetch_twice_counterexample:
  "collect_all_comments ok_env 400 idle =
     Inr (\<lparr>title = ''FitGirl Comments'', site_id = 6289, hash = ''null'', total_reported = 0,
           pages = 0\<rparr>,
          [(mk 7 0 0 0)\<lparr>text_html := ''see http://x/a.png'',
             user := blank_user\<lparr>ava := ''http://x/a.png'',
                      ava_data_uri := ''data:application/octet-stream;base64,TWFu''\<rparr>\<rparr>],
          [(7, [(''http://x/a.png'', ''data:application/octet-stream;base64,TWFu'')])],
          \<lparr>calls = [First], gets = [''http://x/a.png'', ''http://x/a.png''],
           sleeps = [1 / 20, 1 / 20]\<rparr>) \<and>
   count_list [''http://x/a.png'', ''http://x/a.png''] ''http://x/a.png'' = 2"
  by code_simp

text \<open>
  C7, amended. Within one pass the fetching is memoized by exact URL string. The pass
  resolves each distinct URL once, whatever the number of comments that carry it: the
  GETs of the pass are one block per URL, of one to three requests of that URL (one
  request when the server answers it), and every comment gets the result kept for its
  URL. The avatar pass runs over the distinct non-empty avatar URLs and the linked-image
  pass over the distinct image links, each with a cache of its own.
\<close>

theorem fetch_once_per_pass:
  assumes "set_iter_ok e"
  shows "(embed_avatars e cms w = (cms', w') \<longrightarrow>
       (\<exists>urls k. distinct urls \<and> set urls = set (avatar_urls cms) \<and>
          (\<forall>u. 1 \<le> k u \<and> k u \<le> (3::nat)) \<and>
          gets w' = gets w @ concat (map (\<lambda>u. replicate (k u) u) urls) \<and>
          (\<forall>u\<in>set urls. (\<forall>hist. attempt e hist u \<noteq> None) \<longrightarrow> k u = 1)) \<and>
       (\<exists>f. \<forall>i<length cms.
          cms' ! i = (case f (ava (user (cms ! i))) of
                        Some d \<Rightarrow> (cms ! i)\<lparr>user := (user (cms ! i))\<lparr>ava_data_uri := d\<rparr>\<rparr>
                      | None \<Rightarrow> cms ! i))) \<and>
     (embed_linked_images e cms w = Inr (by_comment, w2) \<longrightarrow>
       (\<exists>urls k. distinct urls \<and> set urls = set (all_image_links cms) \<and>
          (\<forall>u. 1 \<le> k u \<and> k u \<le> (3::nat)) \<and>
          gets w2 = gets w @ concat (map (\<lambda>u. replicate (k u) u) urls) \<and>
          (\<forall>u\<in>set urls. (\<forall>hist. attempt e hist u \<noteq> None) \<longrightarrow> k u = 1)) \<and>
       (\<exists>f. \<forall>cid items u d. (cid, items) \<in> set by_comment \<and> (u, d) \<in> set items \<longrightarrow> f u = Some d))"
proof (intro conjI impI)
  assume ea: "embed_avatars e cms w = (cms', w')"
  let ?urls = "set_iter e (avatar_urls cms)"
  from assms have d: "distinct ?urls" and s: "set ?urls = set (avatar_urls cms)"
    by (simp_all add: set_iter_ok_def)
  from embed_avatars_result[OF ea] obtain cache where
    fc: "fill_cache e ?urls (Map.empty, w) = (cache, w')"
    and cms': "cms' = map (\<lambda>c. case (if ava (user c) \<noteq> [] then cache_get cache (ava (user c)) else None) of
                      Some d \<Rightarrow> c\<lparr>user := (user c)\<lparr>ava_data_uri := d\<rparr>\<rparr>
                    | None \<Rightarrow> c) cms"
    by (elim exE conjE) (rule that; assumption)
  from fill_cache_blocks[OF fc d] obtain k where k: "\<forall>u. 1 \<le> k u \<and> k u \<le> (3::nat)"
    "gets w' = gets w @ concat (map (\<lambda>u. replicate (k u) u) ?urls)"
    "\<forall>u\<in>set ?urls. (\<forall>hist. attempt e hist u \<noteq> None) \<longrightarrow> k u = 1"
    by (elim exE conjE) (rule that; assumption)
  from d s k show "\<exists>urls k. distinct urls \<and> set urls = set (avatar_urls cms) \<and>
          (\<forall>u. 1 \<le> k u \<and> k u \<le> (3::nat)) \<and>
          gets w' = gets w @ concat (map (\<lambda>u. replicate (k u) u) urls) \<and>
          (\<forall>u\<in>set urls. (\<forall>hist. attempt e hist u \<noteq> None) \<longrightarrow> k u = 1)"
    by (intro exI[of _ ?urls] exI[of _ k] conjI)
  show "\<exists>f. \<forall>i<length cms.
          cms' ! i = (case f (ava (user (cms ! i))) of
                        Some d \<Rightarrow> (cms ! i)\<lparr>user := (user (cms ! i))\<lparr>ava_data_uri := d\<rparr>\<rparr>
                      | None \<Rightarrow> cms ! i)"
    by (intro exI[of _ "\<lambda>u. if u \<noteq> [] then cache_get cache u else None"]) (simp add: cms')
next
  assume ei: "embed_linked_images e cms w = Inr (by_comment, w2)"
  let ?urls = "set_iter e (all_image_links cms)"
  from assms have d: "distinct ?urls" and s: "set ?urls = set (all_image_links cms)"
    by (simp_all add: set_iter_ok_def)
  from embed_linked_images_result[OF ei] obtain pcu cache where
    fc: "fill_cache e ?urls (Map.empty, w) = (cache, w2)"
    and bc: "by_comment = record_items cache pcu []"
    by (elim exE conjE) (rule that; assumption)
  from fill_cache_blocks[OF fc d] obtain k where k: "\<forall>u. 1 \<le> k u \<and> k u \<le> (3::nat)"
    "gets w2 = gets w @ concat (map (\<lambda>u. replicate (k u) u) ?urls)"
    "\<forall>u\<in>set ?urls. (\<forall>hist. attempt e hist u \<noteq> None) \<longrightarrow> k u = 1"
    by (elim exE conjE) (rule that; assumption)
  from d s k show "\<exists>urls k. distinct urls \<and> set urls = set (all_image_links cms) \<and>
          (\<forall>u. 1 \<le> k u \<and> k u \<le> (3::nat)) \<and>
          gets w2 = gets w @ concat (map (\<lambda>u. replicate (k u) u) urls) \<and>
          (\<forall>u\<in>set urls. (\<forall>hist. attempt e hist u \<noteq> None) \<longrightarrow> k u = 1)"
    by (intro exI[of _ ?urls] exI[of _ k] conjI)
  have "f_ok": "cache_get cache u = Some d"
    if "(cid, items) \<in> set by_comment" "(u, d) \<in> set items" for cid items u d
  proof -
    from record_items_result[OF bc[symmetric]] that(1) obtain ul where
      "items = resolved_items cache ul" by auto
    with that(2) show ?thesis by (simp add: resolved_items_hit)
  qed
  then show "\<exists>f. \<forall>cid items u d. (cid, items) \<in> set by_comment \<and> (u, d) \<in> set items \<longrightarrow> f u = Some d"
    by (intro exI[of _ "cache_get cache"]) blast
qed

theorem fetch_once_per_pass_witness:
  "set_iter_ok img_env \<and>
   embed_avatars img_env [poster, poster\<lparr>id_c := 2\<rparr>] idle =
     ([poster\<lparr>user := (user poster)\<lparr>ava_data_uri := ''data:application/octet-stream;base64,TWFu''\<rparr>\<rparr>,
       poster\<lparr>id_c := 2, user := (user poster)\<lparr>ava_data_uri := ''data:application/octet-stream;base64,TWFu''\<rparr>\<rparr>],
      \<lparr>calls = [], gets = [''http://x/a.png''], sleeps = [1 / 20]\<rparr>) \<and>
   (\<exists>urls k. distinct urls \<and> set urls = set (avatar_urls [poster, poster\<lparr>id_c := 2\<rparr>]) \<and>
      [''http://x/a.png''] = concat (map (\<lambda>u. replicate (k u) u) urls))"
proof -
  have ok: "set_iter_ok img_env"
    by (simp add: set_iter_ok_def img_env_def)
  have run: "embed_avatars img_env [poster, poster\<lparr>id_c := 2\<rparr>] idle =
     ([poster\<lparr>user := (user poster)\<lparr>ava_data_uri := ''data:application/octet-stream;base64,TWFu''\<rparr>\<rparr>,
       poster\<lparr>id_c := 2, user := (user poster)\<lparr>ava_data_uri := ''data:application/octet-stream;base64,TWFu''\<rparr>\<rparr>],
      \<lparr>calls = [], gets = [''http://x/a.png''], sleeps = [1 / 20]\<rparr>)"
    by code_simp
  from fetch_once_per_pass[OF ok, THEN conjunct1, rule_format, OF run, THEN conjunct1]
  obtain urls k where "distinct urls" "set urls = set (avatar_urls [poster, poster\<lparr>id_c := 2\<rparr>])"
    "gets \<lparr>calls = [], gets = [''http://x/a.png''], sleeps = [1 / 20 :: rat]\<rparr> =
       gets idle @ concat (map (\<lambda>u. replicate (k u) u) urls)"
    by (elim exE conjE) (rule that; assumption)
  then have "\<exists>urls k. distinct urls \<and> set urls = set (avatar_urls [poster, poster\<lparr>id_c := 2\<rparr>]) \<and>
      [''http://x/a.png''] = concat (map (\<lambda>u. replicate (k u) u) urls)"
    by (intro exI[of _ urls] exI[of _ k]) (simp add: idle_def)
  with ok run show ?thesis by (intro conjI)
qed

lemma collect_e_mem:
  "collect_e f xs = Inr ys \<Longrightarrow> u \<in> set ys \<Longrightarrow> \<exists>x\<in>set xs. \<exists>zs. f x = Inr zs \<and> u \<in> set zs"
proof (induction xs arbitrary: ys)
  case Nil
  then show ?case by simp
next
  case (Cons x xs)
  from Cons.prems(1) obtain zs where fx: "f x = Inr zs"
    by (cases "f x") auto
  with Cons.prems(1) obtain rest where r: "collect_e f xs = Inr rest" and ys: "ys = zs @ rest"
    by (cases "collect_e f xs") auto
  from Cons.prems(2) ys have "u \<in> set zs \<or> u \<in> set rest" by simp
  then show ?case
  proof
    assume "u \<in> set zs"
    with fx show ?thesis by auto
  next
    assume "u \<in> set rest"
    from Cons.IH[OF r this] show ?thesis by auto
  qed
qed

lemma attach_urls_image:
  assumes "attach_urls a = Inr us" "u \<in> set us"
  shows "looks_like_image u \<and> py_get a ''type'' JNull = Inr (JStr ''richpreview'')"
proof -
  from assms(1) obtain t where t: "py_get a ''type'' JNull = Inr t"
    by (cases "py_get a ''type'' JNull") (auto simp: attach_urls_def)
  have rp: "t = JStr ''richpreview''"
  proof (rule ccontr)
    assume "t \<noteq> JStr ''richpreview''"
    with assms(1) t have "us = []" by (simp add: attach_urls_def)
    with assms(2) show False by simp
  qed
  from assms(1) t rp obtain d where d: "py_get a ''data'' JNull = Inr d"
    by (cases "py_get a ''data'' JNull") (auto simp: attach_urls_def)
  from assms(1) t rp d obtain x where x: "py_get (py_or d (JObj [])) ''url'' JNull = Inr x"
    by (cases "py_get (py_or d (JObj [])) ''url'' JNull") (auto simp: attach_urls_def)
  from assms(1) t rp d x obtain s where "py_or x (JStr []) = JStr s"
    and us: "us = (if looks_like_image s then [s] else [])"
    by (cases "py_or x (JStr [])") (auto simp: attach_urls_def)
  from us assms(2) have "looks_like_image u" by (auto split: if_splits)
  with t rp show ?thesis by simp
qed

lemma discover_image_links_result:
  assumes "discover_image_links c = Inr ul"
  shows "sorted ul \<and> distinct ul \<and>
     (\<exists>atts us. py_iter (py_or (attaches c) (JList [])) = Inr atts \<and>
        collect_e attach_urls atts = Inr us \<and>
        set ul = {u \<in> set (href_findall (text_html c)) \<union> set (plain_url_findall (text_html c)).
                   looks_like_image u} \<union> set us) \<and>
     (\<forall>u\<in>set ul. looks_like_image u)"
proof -
  from assms obtain atts us where
    it: "py_iter (py_or (attaches c) (JList [])) = Inr atts"
    and ce: "collect_e attach_urls atts = Inr us"
    and ul: "ul = sort (remdups (filter looks_like_image (href_findall (text_html c)) @
                 filter looks_like_image (plain_url_findall (text_html c)) @ us))"
    by (auto simp: discover_image_links_def Let_def ebind_eq_Inr)
  have us: "\<forall>u\<in>set us. looks_like_image u"
  proof
    fix u assume "u \<in> set us"
    from collect_e_mem[OF ce this] obtain a zs where "attach_urls a = Inr zs" "u \<in> set zs"
      by auto
    then show "looks_like_image u" by (simp add: attach_urls_image)
  qed
  have "sorted ul" "distinct ul" unfolding ul by simp_all
  moreover have "set ul = {u \<in> set (href_findall (text_html c)) \<union> set (plain_url_findall (text_html c)).
                   looks_like_image u} \<union> set us"
    unfolding ul by auto
  moreover have "\<forall>u\<in>set ul. looks_like_image u"
    using us unfolding ul by auto
  ultimately show ?thesis using it ce by blast
qed

lemma fill_cache_hit:
  "fill_cache e urls (cache, w) = (cache', w') \<Longrightarrow> cache' u = Some (Some d) \<Longrightarrow>
   cache u = Some (Some d) \<or> (\<exists>hist. attempt e hist u = Some d)"
proof (induction urls arbitrary: cache w)
  case Nil
  then show ?case by simp
next
  case (Cons url urls)
  obtain r w1 where ud: "url_to_data_uri e url 3 w = (r, w1)"
    by (cases "url_to_data_uri e url 3 w") auto
  with Cons.prems(1) have
    rest: "fill_cache e urls (cache(url \<mapsto> r), w1\<lparr>sleeps := sleeps w1 @ [1 / 20]\<rparr>) = (cache', w')"
    by simp
  from Cons.IH[OF rest Cons.prems(2)] show ?case
  proof
    assume c: "(cache(url \<mapsto> r)) u = Some (Some d)"
    show ?thesis
    proof (cases "u = url")
      case True
      with c have "r = Some d" by simp
      with url_to_data_uri_block[OF ud] True show ?thesis by auto
    next
      case False
      with c show ?thesis by simp
    qed
  next
    assume "\<exists>hist. attempt e hist u = Some d"
    then show ?thesis by simp
  qed
qed

text \<open>
  C10. The image links of a comment are the sorted list, without duplicates, of the
  targets of \<open>href\<close>, the bare URLs and the URLs of link-preview attachments that
  look like images. The pairs that the linked-image pass records for a comment id are
  those links, in that order, that resolved to a non-empty inline representation: their
  URLs are in ascending order of the strings and none occurs twice. An id is recorded
  only with a non-empty list of pairs, and no id is recorded twice. In the sample the
  body names \<open>b.png\<close> first, yet the pairs are those of the GIF and of \<open>a.png\<close>,
  in this order, \<open>b.png\<close> having failed; a comment whose only link fails is absent.
\<close>

theorem linked_images_sorted:
  "(discover_image_links c = Inr ul \<longrightarrow>
      sorted ul \<and> distinct ul \<and>
      (\<exists>atts us. py_iter (py_or (attaches c) (JList [])) = Inr atts \<and>
         collect_e attach_urls atts = Inr us \<and>
         set ul = {u \<in> set (href_findall (text_html c)) \<union> set (plain_url_findall (text_html c)).
                    looks_like_image u} \<union> set us) \<and>
      (\<forall>u\<in>set ul. looks_like_image u)) \<and>
   (embed_linked_images e cms w = Inr (by_comment, w') \<longrightarrow>
      distinct (map fst by_comment) \<and>
      (\<forall>cid items. (cid, items) \<in> set by_comment \<longrightarrow>
         items \<noteq> [] \<and> sorted (map fst items) \<and> distinct (map fst items) \<and>
         (\<exists>x\<in>set cms. \<exists>links f. id_c x = cid \<and> discover_image_links x = Inr links \<and>
            items = concat (map (\<lambda>u. case f u of Some d \<Rightarrow> [(u, d)] | None \<Rightarrow> []) links)) \<and>
         (\<forall>u d. (u, d) \<in> set items \<longrightarrow> d \<noteq> [] \<and> (\<exists>hist. attempt e hist u = Some d))))"
proof -
  have c1: "discover_image_links c = Inr ul \<longrightarrow>
      sorted ul \<and> distinct ul \<and>
      (\<exists>atts us. py_iter (py_or (attaches c) (JList [])) = Inr atts \<and>
         collect_e attach_urls atts = Inr us \<and>
         set ul = {u \<in> set (href_findall (text_html c)) \<union> set (plain_url_findall (text_html c)).
                    looks_like_image u} \<union> set us) \<and>
      (\<forall>u\<in>set ul. looks_like_image u)"
    by (intro impI) (rule discover_image_links_result)
  have c2: "embed_linked_images e cms w = Inr (by_comment, w') \<longrightarrow>
      distinct (map fst by_comment) \<and>
      (\<forall>cid items. (cid, items) \<in> set by_comment \<longrightarrow>
         items \<noteq> [] \<and> sorted (map fst items) \<and> distinct (map fst items) \<and>
         (\<exists>x\<in>set cms. \<exists>links f. id_c x = cid \<and> discover_image_links x = Inr links \<and>
            items = concat (map (\<lambda>u. case f u of Some d \<Rightarrow> [(u, d)] | None \<Rightarrow> []) links)) \<and>
         (\<forall>u d. (u, d) \<in> set items \<longrightarrow> d \<noteq> [] \<and> (\<exists>hist. attempt e hist u = Some d)))"
  proof (intro impI conjI)
  assume ei: "embed_linked_images e cms w = Inr (by_comment, w')"
  from embed_linked_images_result[OF ei] obtain pcu cache where
    g: "gather_urls cms ([], []) = Inr (pcu, all_image_links cms)"
    and fc: "fill_cache e (set_iter e (all_image_links cms)) (Map.empty, w) = (cache, w')"
    and bc: "by_comment = record_items cache pcu []"
    by (elim exE conjE) (rule that; assumption)
  note ri = record_items_result[OF bc[symmetric]]
  note gu = gather_urls_result[OF g]
  from ri show "distinct (map fst by_comment)" by simp
  show "\<forall>cid items. (cid, items) \<in> set by_comment \<longrightarrow>
         items \<noteq> [] \<and> sorted (map fst items) \<and> distinct (map fst items) \<and>
         (\<exists>x\<in>set cms. \<exists>links f. id_c x = cid \<and> discover_image_links x = Inr links \<and>
            items = concat (map (\<lambda>u. case f u of Some d \<Rightarrow> [(u, d)] | None \<Rightarrow> []) links)) \<and>
         (\<forall>u d. (u, d) \<in> set items \<longrightarrow> d \<noteq> [] \<and> (\<exists>hist. attempt e hist u = Some d))"
  proof (intro allI impI)
    fix cid items assume m: "(cid, items) \<in> set by_comment"
    with ri obtain links where l: "(cid, links) \<in> set pcu" "items = resolved_items cache links"
      "items \<noteq> []" by auto
    from gu l(1) obtain x where x: "x \<in> set cms" "id_c x = cid" "discover_image_links x = Inr links"
      by auto
    from discover_image_links_result[OF x(3)] have sd: "sorted links" "distinct links"
      by simp_all
    have fst: "map fst items = filter (\<lambda>u. cache_get cache u \<noteq> None) links"
      unfolding l(2) by (rule resolved_items_fst)
    have s1: "sorted (map fst items)" unfolding fst using sd(1) by (rule sorted_wrt_filter)
    have s2: "distinct (map fst items)" unfolding fst using sd(2) by simp
    have s3: "\<exists>x\<in>set cms. \<exists>links f. id_c x = cid \<and> discover_image_links x = Inr links \<and>
            items = concat (map (\<lambda>u. case f u of Some d \<Rightarrow> [(u, d)] | None \<Rightarrow> []) links)"
      using x l(2) unfolding resolved_items_def
      by (intro bexI[of _ x] exI[of _ links] exI[of _ "cache_get cache"]) simp_all
    have s4: "\<forall>u d. (u, d) \<in> set items \<longrightarrow> d \<noteq> [] \<and> (\<exists>hist. attempt e hist u = Some d)"
    proof (intro allI impI)
      fix u d assume "(u, d) \<in> set items"
      then have "cache_get cache u = Some d"
        unfolding l(2) by (simp add: resolved_items_hit)
      then have c: "cache u = Some (Some d)" "d \<noteq> []"
        by (simp_all add: cache_get_Some)
      from fill_cache_hit[OF fc c(1)] c(2)
      show "d \<noteq> [] \<and> (\<exists>hist. attempt e hist u = Some d)" by simp
    qed
    from l(3) s1 s2 s3 s4
    show "items \<noteq> [] \<and> sorted (map fst items) \<and> distinct (map fst items) \<and>
         (\<exists>x\<in>set cms. \<exists>links f. id_c x = cid \<and> discover_image_links x = Inr links \<and>
            items = concat (map (\<lambda>u. case f u of Some d \<Rightarrow> [(u, d)] | None \<Rightarrow> []) links)) \<and>
         (\<forall>u d. (u, d) \<in> set items \<longrightarrow> d \<noteq> [] \<and> (\<exists>hist. attempt e hist u = Some d))"
      by (intro conjI)
  qed
  qed
  show ?thesis
    by (intro conjI) (fact c1 c2)+
qed

theorem linked_images_sorted_witness:
  "discover_image_links poster = Inr [''http://x/0.GIF?q'', ''http://x/a.png'', ''http://x/b.png''] \<and>
   embed_linked_images img_env [poster, (mk 2 8 0 0)\<lparr>text_html := ''http://x/b.png''\<rparr>] idle =
     Inr ([(1, [(''http://x/0.GIF?q'', ''data:application/octet-stream;base64,TWFu''),
                (''http://x/a.png'', ''data:application/octet-stream;base64,TWFu'')])],
          \<lparr>calls = [],
           gets = [''http://x/0.GIF?q'', ''http://x/a.png'', ''http://x/b.png'', ''http://x/b.png'',
                   ''http://x/b.png''],
           sleeps = [1 / 20, 1 / 20, 1 / 4, 1 / 2, 1, 1 / 20]\<rparr>) \<and>
   sorted [''http://x/0.GIF?q'', ''http://x/a.png'', ''http://x/b.png''] \<and>
   sorted (map fst [(''http://x/0.GIF?q'', ''data:application/octet-stream;base64,TWFu''),
                    (''http://x/a.png'', ''data:application/octet-stream;base64,TWFu'')])"
proof -
  let ?items = "[(''http://x/0.GIF?q'', ''data:application/octet-stream;base64,TWFu''),
                 (''http://x/a.png'', ''data:application/octet-stream;base64,TWFu'')]"
  have d: "discover_image_links poster = Inr [''http://x/0.GIF?q'', ''http://x/a.png'', ''http://x/b.png'']"
    by code_simp
  have run: "embed_linked_images img_env [poster, (mk 2 8 0 0)\<lparr>text_html := ''http://x/b.png''\<rparr>] idle =
     Inr ([(1, ?items)],
          \<lparr>calls = [],
           gets = [''http://x/0.GIF?q'', ''http://x/a.png'', ''http://x/b.png'', ''http://x/b.png'',
                   ''http://x/b.png''],
           sleeps = [1 / 20, 1 / 20, 1 / 4, 1 / 2, 1, 1 / 20]\<rparr>)"
    by code_simp
  note t = linked_images_sorted[where c = poster
      and ul = "[''http://x/0.GIF?q'', ''http://x/a.png'', ''http://x/b.png'']"
      and e = img_env and cms = "[poster, (mk 2 8 0 0)\<lparr>text_html := ''http://x/b.png''\<rparr>]"
      and w = idle and by_comment = "[(1, ?items)]"]
  from t d have a: "sorted [''http://x/0.GIF?q'', ''http://x/a.png'', ''http://x/b.png'']"
    by blast
  have m: "(1, ?items) \<in> set [(1::int, ?items)]" by simp
  from t[THEN conjunct2, rule_format, OF run, THEN conjunct2, rule_format, OF m]
  have b: "sorted (map fst ?items)" by (elim conjE)
  from d run a b show ?thesis by (intro conjI)
qed

end
